theory Spec2Isabelle
  imports Main
begin

section \<open>Strings\<close>

text \<open>
  JavaScript strings are modelled as HOL strings whose characters are the code units
  below 256. The white space of \<^verbatim>\<open>String.prototype.trim\<close> and of the regular
  expression class \<^verbatim>\<open>\s\<close> in that range is TAB, LF, VT, FF, CR, SPACE and NBSP.
\<close>

definition is_ws :: "char \<Rightarrow> bool" where
  "is_ws c = (of_char c \<in> {9, 10, 11, 12, 13, 32, 160 :: nat})"

text \<open>A string is truthy when it is not empty.\<close>

definition truthy :: "string \<Rightarrow> bool" where
  "truthy s = (s \<noteq> [])"

text \<open>A value that may be \<^verbatim>\<open>null\<close> or \<^verbatim>\<open>undefined\<close> is truthy when it is a non-empty string.\<close>

definition truthy_opt :: "string option \<Rightarrow> bool" where
  "truthy_opt v = (case v of None \<Rightarrow> False | Some s \<Rightarrow> truthy s)"

definition trim :: "string \<Rightarrow> string" where
  "trim s = rev (dropWhile is_ws (rev (dropWhile is_ws s)))"

text \<open>\<^verbatim>\<open>s.replace(/\s+/g, " ")\<close>: every maximal run of white space becomes one space.\<close>

fun collapse_ws :: "string \<Rightarrow> string" where
  "collapse_ws [] = []"
| "collapse_ws (c # cs) =
     (if is_ws c then (if cs \<noteq> [] \<and> is_ws (hd cs) then collapse_ws cs else CHR '' '' # collapse_ws cs)
      else c # collapse_ws cs)"

text \<open>\<^verbatim>\<open>s.split(/\s+/)\<close>: the pieces between maximal runs of white space.\<close>

fun split_ws :: "string \<Rightarrow> string list" where
  "split_ws [] = [[]]"
| "split_ws (c # cs) =
     (if is_ws c then (if cs \<noteq> [] \<and> is_ws (hd cs) then split_ws cs else [] # split_ws cs)
      else (case split_ws cs of [] \<Rightarrow> [[c]] | w # ws \<Rightarrow> (c # w) # ws))"

fun join :: "string \<Rightarrow> string list \<Rightarrow> string" where
  "join sep [] = []"
| "join sep [x] = x"
| "join sep (x # y # ys) = x @ sep @ join sep (y # ys)"

text \<open>
  \<^verbatim>\<open>normalize(...strings)\<close>: trim and collapse each piece, drop the empty ones, join
  with single spaces.
\<close>

definition normalize :: "string list \<Rightarrow> string" where
  "normalize strings = join '' '' (filter truthy (map (\<lambda>string. collapse_ws (trim string)) strings))"

definition lower_char :: "char \<Rightarrow> char" where
  "lower_char c =
     (let k = (of_char c :: nat)
      in if (65 \<le> k \<and> k \<le> 90) \<or> (192 \<le> k \<and> k \<le> 222 \<and> k \<noteq> 215) then char_of (k + 32) else c)"

definition toLowerCase :: "string \<Rightarrow> string" where
  "toLowerCase s = map lower_char s"

text \<open>\<^verbatim>\<open>s.includes(t)\<close>: \<open>t\<close> occurs in \<open>s\<close> as a contiguous substring.\<close>

fun str_includes :: "string \<Rightarrow> string \<Rightarrow> bool" where
  "str_includes [] t = (t = [])"
| "str_includes (c # cs) t = (take (length t) (c # cs) = t \<or> str_includes cs t)"

section \<open>The document\<close>

text \<open>
  Nodes are identified by references. Every property of a node that the engine reads is a
  field of the node's record; the tables kept by the initialisation script
  (\<^verbatim>\<open>internalsMap\<close>, \<^verbatim>\<open>shadowdomMap\<close>) and the lookups answered by a document
  (\<^verbatim>\<open>getElementById\<close>, \<^verbatim>\<open>querySelectorAll('label[for=...]')\<close>) are fields of the
  document state.
\<close>

type_synonym ref = nat

datatype node_kind = ElementNode | TextNode | DocumentNode | FragmentNode | OtherNode

text \<open>The properties that only an \<^verbatim>\<open>HTMLElement\<close> has.\<close>

datatype html_element = HTMLElement (inert: bool) (title: string)

text \<open>The answers of an \<^verbatim>\<open>HTMLSlotElement\<close>, both with \<^verbatim>\<open>{ flatten: true }\<close>.\<close>

datatype slot_element = HTMLSlotElement (assignedNodes: "ref list") (assignedElements: "ref list")

text \<open>
  The fields of a node. \<open>nodeKind\<close> stands for \<^verbatim>\<open>nodeType\<close> and for the test
  \<^verbatim>\<open>instanceof Element\<close>; \<open>attrs\<close> is what \<^verbatim>\<open>getAttribute\<close> and
  \<^verbatim>\<open>hasAttribute\<close> read; \<open>computedDisplay\<close> and \<open>computedVisibility\<close> are the
  current computed style of an element; \<open>html\<close> is \<open>None\<close> for a node that is not an
  \<^verbatim>\<open>HTMLElement\<close>, and \<open>slot\<close> is \<open>None\<close> for one that is not an
  \<^verbatim>\<open>HTMLSlotElement\<close>; \<open>alt\<close> is \<open>None\<close> where the property is undefined;
  \<open>prop_type\<close>, \<open>prop_value\<close> and \<open>prop_id\<close> are the properties \<^verbatim>\<open>type\<close>,
  \<^verbatim>\<open>value\<close> and \<^verbatim>\<open>id\<close>; \<open>labels\<close> is \<open>None\<close> for an element that has no
  \<^verbatim>\<open>labels\<close> property.
\<close>

record node =
  nodeKind :: node_kind
  tagName :: string
  attrs :: "string \<rightharpoonup> string"
  parentElement :: "ref option"
  childNodes :: "ref list"
  ownerDocument :: "ref option"
  nodeValue :: "string option"
  computedDisplay :: string
  computedVisibility :: string
  html :: "html_element option"
  slot :: "slot_element option"
  alt :: "string option"
  prop_type :: string
  prop_value :: string
  prop_id :: string
  multiple :: bool
  labels :: "ref list option"

record internals =
  internals_role :: "string option"
  ariaLabel :: "string option"
  ariaLabelledByElements :: "ref list option"

record dom =
  nodes :: "ref \<Rightarrow> node"
  getElementById :: "ref \<Rightarrow> string \<Rightarrow> ref option"
  querySelectorAllLabelFor :: "ref \<Rightarrow> string \<Rightarrow> ref list"
  internalsMap :: "ref \<rightharpoonup> internals"
  shadowdomMap :: "ref \<rightharpoonup> ref"

definition getAttribute :: "dom \<Rightarrow> ref \<Rightarrow> string \<Rightarrow> string option" where
  "getAttribute d el a = attrs (nodes d el) a"

definition hasAttribute :: "dom \<Rightarrow> ref \<Rightarrow> string \<Rightarrow> bool" where
  "hasAttribute d el a = (attrs (nodes d el) a \<noteq> None)"

definition instanceofElement :: "dom \<Rightarrow> ref \<Rightarrow> bool" where
  "instanceofElement d node = (nodeKind (nodes d node) = ElementNode)"

definition isElement :: "dom \<Rightarrow> ref \<Rightarrow> bool" where
  "isElement d node = (nodeKind (nodes d node) = ElementNode)"

text \<open>
  \<^verbatim>\<open>getComputedStyle(node)\<close> returns a live declaration object: what is read through
  it is the current computed style of the element it was made for, whenever it is read.
\<close>

datatype css = CSSStyleDeclaration ref

definition getComputedStyle :: "ref \<Rightarrow> css" where
  "getComputedStyle node = CSSStyleDeclaration node"

fun display :: "dom \<Rightarrow> css \<Rightarrow> string" where
  "display d (CSSStyleDeclaration e) = computedDisplay (nodes d e)"

fun visibility :: "dom \<Rightarrow> css \<Rightarrow> string" where
  "visibility d (CSSStyleDeclaration e) = computedVisibility (nodes d e)"

text \<open>\<^verbatim>\<open>computedStyleCache\<close>, the table of the selector engine's closure.\<close>

type_synonym style_cache = "ref \<rightharpoonup> css"

section \<open>Visibility\<close>

text \<open>
  The loop of \<^verbatim>\<open>isElementHidden\<close> walks the \<^verbatim>\<open>parentElement\<close> chain; the fuel
  bounds the number of iterations, and \<open>None\<close> is the loop that has not finished.
\<close>

fun isElementHidden_loop :: "nat \<Rightarrow> dom \<Rightarrow> ref option \<Rightarrow> style_cache \<Rightarrow> (bool \<times> style_cache) option" where
  "isElementHidden_loop 0 d node sc = None"
| "isElementHidden_loop (Suc n) d None sc = Some (False, sc)"
| "isElementHidden_loop (Suc n) d (Some node) sc =
     (if instanceofElement d node then
        if hasAttribute d node ''hidden'' then Some (True, sc)
        else if getAttribute d node ''aria-hidden'' = Some ''true'' then Some (True, sc)
        else
          let computedStyle = (case sc node of Some cs \<Rightarrow> cs | None \<Rightarrow> getComputedStyle node);
              sc' = (case sc node of Some cs \<Rightarrow> sc | None \<Rightarrow> sc(node \<mapsto> computedStyle))
          in if display d computedStyle = ''none'' \<or> visibility d computedStyle = ''hidden'' then Some (True, sc')
             else if (case html (nodes d node) of Some h \<Rightarrow> inert h | None \<Rightarrow> False) then Some (True, sc')
             else isElementHidden_loop n d (parentElement (nodes d node)) sc'
      else isElementHidden_loop n d (parentElement (nodes d node)) sc)"

definition isElementHidden :: "nat \<Rightarrow> dom \<Rightarrow> ref \<Rightarrow> style_cache \<Rightarrow> (bool \<times> style_cache) option" where
  "isElementHidden n d target sc = isElementHidden_loop n d (Some target) sc"

section \<open>Text extraction\<close>

text \<open>
  Mapping a state-passing function over a list, left to right, as \<^verbatim>\<open>Array.from(xs, f)\<close>
  and a \<^verbatim>\<open>for\<close> loop over \<open>xs\<close> do when \<open>f\<close> changes the caches.
\<close>

fun mapM :: "('a \<Rightarrow> 's \<Rightarrow> ('b \<times> 's) option) \<Rightarrow> 'a list \<Rightarrow> 's \<Rightarrow> ('b list \<times> 's) option" where
  "mapM f [] s = Some ([], s)"
| "mapM f (x # xs) s =
     (case f x s of
        None \<Rightarrow> None
      | Some (y, s') \<Rightarrow> (case mapM f xs s' of None \<Rightarrow> None | Some (ys, s'') \<Rightarrow> Some (y # ys, s'')))"

definition normalized :: "(string list \<times> 's) option \<Rightarrow> (string \<times> 's) option" where
  "normalized r = (case r of None \<Rightarrow> None | Some (texts, s) \<Rightarrow> Some (normalize texts, s))"

fun asText :: "nat \<Rightarrow> dom \<Rightarrow> ref \<Rightarrow> style_cache \<Rightarrow> (string \<times> style_cache) option" where
  "asText 0 d node sc = None"
| "asText (Suc n) d node sc =
     (if nodeKind (nodes d node) = TextNode then
        Some (case nodeValue (nodes d node) of Some v \<Rightarrow> v | None \<Rightarrow> [], sc)
      else if \<not> isElement d node then Some ([], sc)
      else case isElementHidden (Suc n) d node sc of
        None \<Rightarrow> None
      | Some (hidden, sc1) \<Rightarrow>
          if hidden then Some ([], sc1)
          else if tagName (nodes d node) = ''IMG'' then
            Some (case alt (nodes d node) of Some a \<Rightarrow> a | None \<Rightarrow> [], sc1)
          else if tagName (nodes d node) = ''INPUT'' then
            Some (if prop_type (nodes d node) \<in> {''button'', ''submit'', ''reset''} then prop_value (nodes d node)
                  else if prop_type (nodes d node) = ''image''
                  then (case alt (nodes d node) of Some a \<Rightarrow> a | None \<Rightarrow> [])
                  else [], sc1)
          else if (case slot (nodes d node) of Some s \<Rightarrow> assignedNodes s \<noteq> [] | None \<Rightarrow> False) then
            normalized (mapM (asText n d) (assignedNodes (the (slot (nodes d node)))) sc1)
          else (case shadowdomMap d node of
                  Some shadowRoot \<Rightarrow> normalized (mapM (asText n d) (childNodes (nodes d shadowRoot)) sc1)
                | None \<Rightarrow> normalized (mapM (asText n d) (childNodes (nodes d node)) sc1)))"

text \<open>
  \<^verbatim>\<open>associatedLabelText\<close>: the labels that name the element's id, then the labels
  the element reports itself; \<open>None\<close> inside the result is the source's \<^verbatim>\<open>null\<close>.
\<close>

definition associatedLabelText :: "nat \<Rightarrow> dom \<Rightarrow> ref \<Rightarrow> style_cache \<Rightarrow> (string option \<times> style_cache) option" where
  "associatedLabelText n d el sc =
     (case ownerDocument (nodes d el) of
        None \<Rightarrow> Some (None, sc)
      | Some doc \<Rightarrow>
          (case (if truthy (prop_id (nodes d el))
                 then normalized (mapM (asText n d) (querySelectorAllLabelFor d doc (prop_id (nodes d el))) sc)
                 else Some ([], sc)) of
             None \<Rightarrow> None
           | Some (text, sc1) \<Rightarrow>
               if truthy text then Some (Some text, sc1)
               else (case labels (nodes d el) of
                       None \<Rightarrow> Some (None, sc1)
                     | Some ls \<Rightarrow>
                         (case normalized (mapM (asText n d) ls sc1) of
                            None \<Rightarrow> None
                          | Some (text2, sc2) \<Rightarrow>
                              if truthy text2 then Some (Some text2, sc2) else Some (None, sc2)))))"

definition resolveIdRefs :: "dom \<Rightarrow> ref \<Rightarrow> string \<Rightarrow> ref list" where
  "resolveIdRefs d doc ids = List.map_filter (getElementById d doc) (filter truthy (split_ws (trim ids)))"

definition getLabelledByElementsByAttribute :: "dom \<Rightarrow> ref \<Rightarrow> ref list" where
  "getLabelledByElementsByAttribute d el =
     (case getAttribute d el ''aria-labelledby'' of
        None \<Rightarrow> []
      | Some labelledByAttr \<Rightarrow>
          (case ownerDocument (nodes d el) of
             None \<Rightarrow> []
           | Some doc \<Rightarrow> if truthy labelledByAttr then resolveIdRefs d doc labelledByAttr else []))"

section \<open>Roles and accessible names\<close>

definition rolesAllowingNameFromContent :: "string list" where
  "rolesAllowingNameFromContent =
     [''button'', ''link'', ''menuitem'', ''menuitemcheckbox'', ''menuitemradio'', ''option'', ''tab'',
      ''switch'', ''checkbox'', ''radio'', ''treeitem'', ''heading'', ''term'', ''definition'',
      ''toolbar'', ''group'', ''region'']"

definition computeInputElementRole :: "dom \<Rightarrow> ref \<Rightarrow> string option" where
  "computeInputElementRole d el =
     (let t = prop_type (nodes d el)
      in if t \<in> {''button'', ''submit'', ''reset'', ''image''} then Some ''button''
         else if t \<in> {''checkbox'', ''radio''} then Some t
         else Some ''textbox'')"

text \<open>The cases of the tag switch that return a constant.\<close>

definition tagRoles :: "(string \<times> string) list" where
  "tagRoles =
     [(''ARTICLE'', ''article''), (''ASIDE'', ''complementary''), (''BUTTON'', ''button''),
      (''FOOTER'', ''contentinfo''), (''FORM'', ''form''), (''H1'', ''heading''), (''H2'', ''heading''),
      (''H3'', ''heading''), (''H4'', ''heading''), (''H5'', ''heading''), (''H6'', ''heading''),
      (''HEADER'', ''banner''), (''IMG'', ''img''), (''LABEL'', ''label''), (''LI'', ''listitem''),
      (''MAIN'', ''main''), (''METER'', ''progressbar''), (''NAV'', ''navigation''), (''TABLE'', ''table''),
      (''TEXTAREA'', ''textbox''), (''OL'', ''list''), (''UL'', ''list'')]"

record ComputeAccessibleNamesOptions =
  knownRole :: "string option"
  cache :: "(ref \<rightharpoonup> string) option"
  visited :: "ref set option"
  allowNameFromContent :: "bool option"

type_synonym name_state = "(ref \<rightharpoonup> string) \<times> ref set \<times> style_cache"

definition cacheAndReturn ::
  "(ref \<rightharpoonup> string) \<Rightarrow> ref set \<Rightarrow> ref \<Rightarrow> string \<Rightarrow> style_cache \<Rightarrow> ((string \<times> (ref \<rightharpoonup> string) \<times> ref set) \<times> style_cache) option" where
  "cacheAndReturn c v el text sc = Some ((text, c(el \<mapsto> text), v), sc)"

text \<open>
  The part of \<^verbatim>\<open>computeAccessibleName\<close> between the cross references and the role:
  \<^verbatim>\<open>aria-label\<close> (the attribute, else the internals), the associated labels, the
  alternative text of an image, the value of a button input, the title. The result is
  the text with which the source returns here, or \<open>None\<close> when it goes on.
\<close>

definition nameFromMarkup :: "nat \<Rightarrow> dom \<Rightarrow> ref \<Rightarrow> style_cache \<Rightarrow> (string option \<times> style_cache) option" where
  "nameFromMarkup n d el sc =
     (let internals = internalsMap d el;
          ariaLabel =
            (case getAttribute d el ''aria-label'' of
               Some a \<Rightarrow> a
             | None \<Rightarrow> (case Option.bind internals internals.ariaLabel of Some a \<Rightarrow> a | None \<Rightarrow> []))
      in
      if truthy (trim ariaLabel) then Some (Some (normalize [ariaLabel]), sc)
      else
        case associatedLabelText n d el sc of
          None \<Rightarrow> None
        | Some (assoc, sc2) \<Rightarrow>
            if truthy_opt assoc then Some (assoc, sc2)
            else if tagName (nodes d el) = ''IMG'' \<and> truthy_opt (alt (nodes d el)) then
              Some (Some (normalize [the (alt (nodes d el))]), sc2)
            else if tagName (nodes d el) = ''INPUT'' \<and> prop_type (nodes d el) = ''image''
                    \<and> truthy_opt (alt (nodes d el)) then
              Some (Some (normalize [the (alt (nodes d el))]), sc2)
            else if tagName (nodes d el) = ''INPUT''
                    \<and> prop_type (nodes d el) \<in> {''button'', ''submit'', ''reset''}
                    \<and> prop_type (nodes d el) \<noteq> ''image''
                    \<and> truthy (prop_value (nodes d el)) then
              Some (Some (normalize [prop_value (nodes d el)]), sc2)
            else if (case html (nodes d el) of Some h \<Rightarrow> truthy (title h) | None \<Rightarrow> False) then
              Some (Some (normalize [title (the (html (nodes d el)))]), sc2)
            else Some (None, sc2))"

text \<open>
  The end of \<^verbatim>\<open>computeAccessibleName\<close>, once the role is known: the name from
  content for the roles that allow it, then the visible text in any case.
\<close>

definition nameFromContent ::
  "nat \<Rightarrow> dom \<Rightarrow> ref \<Rightarrow> bool option \<Rightarrow> string option \<Rightarrow> style_cache \<Rightarrow> (string \<times> style_cache) option" where
  "nameFromContent n d el allow role sc =
     (if allow \<noteq> Some False \<and> truthy_opt role \<and> the role \<in> set rolesAllowingNameFromContent then
        (case asText n d el sc of
           None \<Rightarrow> None
         | Some (text1, sc1) \<Rightarrow> if truthy text1 then Some (text1, sc1) else asText n d el sc1)
      else asText n d el sc)"

text \<open>
  \<^verbatim>\<open>computeElementRole\<close> and \<^verbatim>\<open>computeAccessibleName\<close> call each other. The name
  computation returns, with the name, the cache and the visited set as it leaves them:
  both are objects shared with the caller through \<^verbatim>\<open>opts\<close>. The fuel bounds the depth
  of the calls between the two functions.
\<close>

fun computeElementRole :: "nat \<Rightarrow> dom \<Rightarrow> ref \<Rightarrow> style_cache \<Rightarrow> (string option \<times> style_cache) option"
and computeAccessibleName ::
  "nat \<Rightarrow> dom \<Rightarrow> ref \<Rightarrow> ComputeAccessibleNamesOptions \<Rightarrow> style_cache
     \<Rightarrow> ((string \<times> (ref \<rightharpoonup> string) \<times> ref set) \<times> style_cache) option" where
  "computeElementRole 0 d el sc = None"
| "computeElementRole (Suc n) d el sc =
     (let explicit = getAttribute d el ''role'' in
      if truthy_opt explicit then Some (explicit, sc)
      else
        let tag = tagName (nodes d el) in
        case map_of tagRoles tag of
          Some r \<Rightarrow> Some (Some r, sc)
        | None \<Rightarrow>
            if tag = ''INPUT'' then Some (computeInputElementRole d el, sc)
            else if tag = ''SECTION'' then
              (case computeAccessibleName n d el
                      \<lparr>knownRole = Some ''region'', cache = None, visited = None,
                       allowNameFromContent = Some False\<rparr> sc of
                 None \<Rightarrow> None
               | Some ((name, c, v), sc1) \<Rightarrow> Some (Some (if truthy name then ''region'' else ''generic''), sc1))
            else if tag = ''SELECT'' then
              Some (Some (if multiple (nodes d el) then ''listbox'' else ''combobox''), sc)
            else if tag = ''A'' then
              Some (if hasAttribute d el ''href'' then Some ''link'' else None, sc)
            else
              let internals = internalsMap d el in
              if truthy_opt (Option.bind internals internals_role)
              then Some (Option.bind internals internals_role, sc)
              else Some (None, sc))"
| "computeAccessibleName 0 d el opts sc = None"
| "computeAccessibleName (Suc n) d el opts sc =
     (let cache0 = (case cache opts of Some c \<Rightarrow> c | None \<Rightarrow> Map.empty);
          visited0 = (case visited opts of Some v \<Rightarrow> v | None \<Rightarrow> {})
      in
      if cache0 el \<noteq> None then Some ((case cache0 el of Some t \<Rightarrow> t | None \<Rightarrow> [], cache0, visited0), sc)
      else if el \<in> visited0 then Some (([], cache0, visited0), sc)
      else
        let visited1 = insert el visited0;
            internals = internalsMap d el;
            labelledByElements =
              (case Option.bind internals ariaLabelledByElements of
                 Some refs \<Rightarrow> refs
               | None \<Rightarrow> getLabelledByElementsByAttribute d el)
        in
        case (if labelledByElements \<noteq> [] then
                normalized (mapM (\<lambda>ref (c, v, s).
                    case computeAccessibleName n d ref
                           (opts\<lparr>cache := Some c, visited := Some v, allowNameFromContent := Some True\<rparr>) s of
                      None \<Rightarrow> None
                    | Some ((t, c', v'), s') \<Rightarrow> Some (t, (c', v', s')))
                  labelledByElements (cache0, visited1, sc))
              else Some ([], (cache0, visited1, sc))) of
          None \<Rightarrow> None
        | Some (text, (cache1, visited2, sc1)) \<Rightarrow>
            if truthy text then cacheAndReturn cache1 visited2 el text sc1
            else
              case nameFromMarkup (Suc n) d el sc1 of
                None \<Rightarrow> None
              | Some (Some text1, sc2) \<Rightarrow> cacheAndReturn cache1 visited2 el text1 sc2
              | Some (None, sc2) \<Rightarrow>
                  (case (case knownRole opts of
                           Some r \<Rightarrow> Some (Some r, sc2)
                         | None \<Rightarrow> computeElementRole n d el sc2) of
                     None \<Rightarrow> None
                   | Some (role, sc3) \<Rightarrow>
                       (case nameFromContent (Suc n) d el (allowNameFromContent opts) role sc3 of
                          None \<Rightarrow> None
                        | Some (text2, sc4) \<Rightarrow> cacheAndReturn cache1 visited2 el text2 sc4)))"

text \<open>
  \<^verbatim>\<open>matchesNameFilter\<close>. The filter and the flag are \<open>None\<close> when the payload has
  no such key.
\<close>

definition matchesNameFilter ::
  "nat \<Rightarrow> dom \<Rightarrow> ref \<Rightarrow> string option \<Rightarrow> bool option \<Rightarrow> style_cache \<Rightarrow> (bool \<times> style_cache) option" where
  "matchesNameFilter n d element nameFilter exact sc =
     (if truthy_opt nameFilter then
        case computeElementRole n d element sc of
          None \<Rightarrow> None
        | Some (accessibleRole, sc1) \<Rightarrow>
            (case computeAccessibleName n d element
                    \<lparr>knownRole = accessibleRole, cache = None, visited = None,
                     allowNameFromContent = None\<rparr> sc1 of
               None \<Rightarrow> None
             | Some ((accessibleName, c, v), sc2) \<Rightarrow>
                 if truthy accessibleName then
                   if exact = Some True then Some (accessibleName = the nameFilter, sc2)
                   else Some (str_includes (toLowerCase accessibleName) (toLowerCase (the nameFilter)), sc2)
                 else Some (False, sc2))
      else Some (False, sc))"

section \<open>Traversal\<close>

definition isSelectorRoot :: "dom \<Rightarrow> ref \<Rightarrow> bool" where
  "isSelectorRoot d node = (nodeKind (nodes d node) \<in> {ElementNode, DocumentNode, FragmentNode})"

text \<open>
  The generator \<^verbatim>\<open>getElements\<close> is modelled by the list of the elements it yields, in
  the order it yields them, with the visited set and the style cache as it leaves them.
  The fuel bounds the depth of the recursion. The source consumes the generator lazily;
  the model runs the traversal to its end before the loop of a query looks at the first
  element. The traversal and the loop share the style cache only, and the content of
  that cache changes no result (\<open>getElements_le\<close>, \<open>query_le\<close> below), so the order
  of the two is not observable in what a query returns.
\<close>

definition yieldAll :: "('a list list \<times> 's) option \<Rightarrow> ('a list \<times> 's) option" where
  "yieldAll r = (case r of None \<Rightarrow> None | Some (yss, s) \<Rightarrow> Some (concat yss, s))"

definition yieldFirst :: "'a \<Rightarrow> ('a list \<times> 's) option \<Rightarrow> ('a list \<times> 's) option" where
  "yieldFirst y r = (case r of None \<Rightarrow> None | Some (ys, s) \<Rightarrow> Some (y # ys, s))"

fun getElements :: "nat \<Rightarrow> dom \<Rightarrow> ref \<Rightarrow> ref set \<times> style_cache \<Rightarrow> (ref list \<times> ref set \<times> style_cache) option" where
  "getElements 0 d node st = None"
| "getElements (Suc n) d node (visited0, sc) =
     (if node \<in> visited0 then Some ([], (visited0, sc))
      else
        let visited1 = insert node visited0;
            isElement = instanceofElement d node
        in
        case (if isElement then isElementHidden (Suc n) d node sc else Some (False, sc)) of
          None \<Rightarrow> None
        | Some (isHidden, sc1) \<Rightarrow>
            if isElement \<and> \<not> isHidden
               \<and> (case slot (nodes d node) of Some s \<Rightarrow> assignedElements s \<noteq> [] | None \<Rightarrow> False) then
              yieldFirst node
                (yieldAll (mapM (getElements n d) (assignedElements (the (slot (nodes d node)))) (visited1, sc1)))
            else if isElement \<and> \<not> isHidden \<and> shadowdomMap d node \<noteq> None then
              yieldFirst node (getElements n d (the (shadowdomMap d node)) (visited1, sc1))
            else if isSelectorRoot d node \<and> (\<not> isElement \<or> \<not> isHidden) then
              (if isElement then yieldFirst node else (\<lambda>r. r))
                (yieldAll (mapM (getElements n d) (childNodes (nodes d node)) (visited1, sc1)))
            else Some ([], (visited1, sc1)))"

section \<open>The selector engine\<close>

text \<open>
  The payload after \<^verbatim>\<open>JSON.parse\<close>, at its declared type \<^verbatim>\<open>ParsedOptions\<close>: an
  object with the keys of the filter, where a key that the payload does not have is
  \<open>None\<close>. The definitions \<open>query\<close> and \<open>queryAll\<close> of this section are the two
  methods on a payload of that type, from the destructuring
  \<^verbatim>\<open>const { role, name, exact } = parse(selector)\<close> on. The methods as they are
  called, on the text of a selector that may hold any value of JSON, are
  \<open>SelectorEngine_query\<close> and \<open>SelectorEngine_queryAll\<close> of the next section.
\<close>

record ParsedOptions =
  role :: "string option"
  name :: "string option"
  description :: "string option"
  exact :: "bool option"

text \<open>
  The loop of \<^verbatim>\<open>query\<close> over the yielded elements, which returns at the first match,
  and the loop of \<^verbatim>\<open>queryAll\<close>, which collects every match.
\<close>

fun query_loop ::
  "nat \<Rightarrow> dom \<Rightarrow> string \<Rightarrow> string option \<Rightarrow> bool option \<Rightarrow> ref list \<Rightarrow> style_cache \<Rightarrow> (ref option \<times> style_cache) option" where
  "query_loop n d r nm ex [] sc = Some (None, sc)"
| "query_loop n d r nm ex (element # elements) sc =
     (case computeElementRole n d element sc of
        None \<Rightarrow> None
      | Some (elementRole, sc1) \<Rightarrow>
          if elementRole \<noteq> Some r then query_loop n d r nm ex elements sc1
          else if truthy_opt nm then
            (case matchesNameFilter n d element nm ex sc1 of
               None \<Rightarrow> None
             | Some (m, sc2) \<Rightarrow> if \<not> m then query_loop n d r nm ex elements sc2 else Some (Some element, sc2))
          else Some (Some element, sc1))"

fun queryAll_loop ::
  "nat \<Rightarrow> dom \<Rightarrow> string \<Rightarrow> string option \<Rightarrow> bool option \<Rightarrow> ref list \<Rightarrow> style_cache \<Rightarrow> (ref list \<times> style_cache) option" where
  "queryAll_loop n d r nm ex [] sc = Some ([], sc)"
| "queryAll_loop n d r nm ex (element # elements) sc =
     (case computeElementRole n d element sc of
        None \<Rightarrow> None
      | Some (elementRole, sc1) \<Rightarrow>
          if elementRole \<noteq> Some r then queryAll_loop n d r nm ex elements sc1
          else if truthy_opt nm then
            (case matchesNameFilter n d element nm ex sc1 of
               None \<Rightarrow> None
             | Some (m, sc2) \<Rightarrow>
                 if \<not> m then queryAll_loop n d r nm ex elements sc2
                 else yieldFirst element (queryAll_loop n d r nm ex elements sc2))
          else yieldFirst element (queryAll_loop n d r nm ex elements sc1))"

definition query :: "nat \<Rightarrow> dom \<Rightarrow> ref \<Rightarrow> ParsedOptions \<Rightarrow> style_cache \<Rightarrow> (ref option \<times> style_cache) option" where
  "query n d root selector sc =
     (if \<not> truthy_opt (role selector) then Some (None, sc)
      else
        case getElements n d root ({}, sc) of
          None \<Rightarrow> None
        | Some (elements, (visited1, sc1)) \<Rightarrow>
            query_loop n d (the (role selector)) (name selector) (exact selector) elements sc1)"

definition queryAll :: "nat \<Rightarrow> dom \<Rightarrow> ref \<Rightarrow> ParsedOptions \<Rightarrow> style_cache \<Rightarrow> (ref list \<times> style_cache) option" where
  "queryAll n d root selector sc =
     (if \<not> truthy_opt (role selector) then Some ([], sc)
      else
        case getElements n d root ({}, sc) of
          None \<Rightarrow> None
        | Some (elements, (visited1, sc1)) \<Rightarrow>
            queryAll_loop n d (the (role selector)) (name selector) (exact selector) elements sc1)"

section \<open>The selector as it is received\<close>

text \<open>
  \<^verbatim>\<open>query\<close> and \<^verbatim>\<open>queryAll\<close> receive the selector as a text and call
  \<^verbatim>\<open>parse\<close>, which is \<^verbatim>\<open>JSON.parse\<close>: it throws a \<^verbatim>\<open>SyntaxError\<close> on a text that
  is not JSON, and otherwise returns a value of JSON, which need not be an object and
  whose members need not have the declared types. A number is a double: \<open>Finite m e\<close>
  is \<open>m * 2 ^ e\<close> (both zeros are \<open>Finite 0 e\<close>), and a literal too large for a double,
  such as \<^verbatim>\<open>1e999\<close>, is an infinity. The members of an object are in the order of the
  text.
\<close>

datatype error = SyntaxError | TypeError

datatype number = Finite int int | Infinite bool

datatype json =
    JNull
  | JBoolean bool
  | JNumber number
  | JString string
  | JArray "json list"
  | JObject "(string \<times> json) list"

text \<open>
  A selector is given by what \<^verbatim>\<open>JSON.parse\<close> makes of its text: \<open>None\<close> for a text
  that is not JSON, and the value otherwise.
\<close>

definition parse :: "json option \<Rightarrow> error + json" where
  "parse selector = (case selector of None \<Rightarrow> Inl SyntaxError | Some payload \<Rightarrow> Inr payload)"

text \<open>
  Reading one of the properties \<^verbatim>\<open>role\<close>, \<^verbatim>\<open>name\<close> and \<^verbatim>\<open>exact\<close> of a value of
  JSON other than \<^verbatim>\<open>null\<close>: an object has the members of its text, where the last of
  two members with the same key stays, and no prototype of a value of JSON has one of
  these three keys, so the property is \<^verbatim>\<open>undefined\<close> (\<open>None\<close>) on an object without
  that member and on every boolean, number, string and array. Destructuring
  \<^verbatim>\<open>null\<close> throws a \<^verbatim>\<open>TypeError\<close>.
\<close>

fun property :: "json \<Rightarrow> string \<Rightarrow> json option" where
  "property (JObject members) key = map_of (rev members) key"
| "property payload key = None"

definition destructure :: "json \<Rightarrow> error + json option \<times> json option \<times> json option" where
  "destructure payload =
     (case payload of
        JNull \<Rightarrow> Inl TypeError
      | _ \<Rightarrow> Inr (property payload ''role'', property payload ''name'', property payload ''exact''))"

text \<open>
  Truthiness of a value of JSON, and of a property that may be \<^verbatim>\<open>undefined\<close>;
  \<^verbatim>\<open>===\<close> between a string or \<^verbatim>\<open>null\<close> and such a property.
\<close>

fun truthy_json :: "json \<Rightarrow> bool" where
  "truthy_json JNull = False"
| "truthy_json (JBoolean b) = b"
| "truthy_json (JNumber (Finite m e)) = (m \<noteq> 0)"
| "truthy_json (JNumber (Infinite negative)) = True"
| "truthy_json (JString s) = truthy s"
| "truthy_json (JArray items) = True"
| "truthy_json (JObject members) = True"

definition truthy_value :: "json option \<Rightarrow> bool" where
  "truthy_value v = (case v of None \<Rightarrow> False | Some j \<Rightarrow> truthy_json j)"

definition strictEquals :: "string option \<Rightarrow> json option \<Rightarrow> bool" where
  "strictEquals a b =
     (case (a, b) of
        (Some s, Some (JString t)) \<Rightarrow> s = t
      | (None, Some JNull) \<Rightarrow> True
      | _ \<Rightarrow> False)"

text \<open>
  \<^verbatim>\<open>matchesNameFilter\<close> and the two loops on the values that the destructuring gives.
  A result is \<open>Inl\<close> of the error that is thrown or \<open>Inr\<close> of the value that is
  returned, with the style cache as the call leaves it. The only throw is that of
  \<^verbatim>\<open>nameFilter.toLowerCase()\<close>: a truthy name that is not a string has no such method.
  As in \<open>query\<close> and \<open>queryAll\<close>, the traversal is run to its end before the loop
  looks at the first element.
\<close>

definition matchesNameFilter_value ::
  "nat \<Rightarrow> dom \<Rightarrow> ref \<Rightarrow> json option \<Rightarrow> json option \<Rightarrow> style_cache \<Rightarrow> ((error + bool) \<times> style_cache) option" where
  "matchesNameFilter_value n d element nameFilter exact0 sc =
     (if truthy_value nameFilter then
        case computeElementRole n d element sc of
          None \<Rightarrow> None
        | Some (accessibleRole, sc1) \<Rightarrow>
            (case computeAccessibleName n d element
                    \<lparr>knownRole = accessibleRole, cache = None, visited = None,
                     allowNameFromContent = None\<rparr> sc1 of
               None \<Rightarrow> None
             | Some ((accessibleName, c, v), sc2) \<Rightarrow>
                 if truthy accessibleName then
                   if truthy_value exact0 then Some (Inr (strictEquals (Some accessibleName) nameFilter), sc2)
                   else
                     (case nameFilter of
                        Some (JString s) \<Rightarrow>
                          Some (Inr (str_includes (toLowerCase accessibleName) (toLowerCase s)), sc2)
                      | _ \<Rightarrow> Some (Inl TypeError, sc2))
                 else Some (Inr False, sc2))
      else Some (Inr False, sc))"

definition push :: "'a \<Rightarrow> ((error + 'a list) \<times> 's) option \<Rightarrow> ((error + 'a list) \<times> 's) option" where
  "push y r =
     (case r of
        None \<Rightarrow> None
      | Some (Inl e, s) \<Rightarrow> Some (Inl e, s)
      | Some (Inr ys, s) \<Rightarrow> Some (Inr (y # ys), s))"

fun query_loop_value ::
  "nat \<Rightarrow> dom \<Rightarrow> json option \<Rightarrow> json option \<Rightarrow> json option \<Rightarrow> ref list \<Rightarrow> style_cache
     \<Rightarrow> ((error + ref option) \<times> style_cache) option" where
  "query_loop_value n d r nm ex [] sc = Some (Inr None, sc)"
| "query_loop_value n d r nm ex (element # elements) sc =
     (case computeElementRole n d element sc of
        None \<Rightarrow> None
      | Some (elementRole, sc1) \<Rightarrow>
          if \<not> strictEquals elementRole r then query_loop_value n d r nm ex elements sc1
          else if truthy_value nm then
            (case matchesNameFilter_value n d element nm ex sc1 of
               None \<Rightarrow> None
             | Some (Inl e, sc2) \<Rightarrow> Some (Inl e, sc2)
             | Some (Inr m, sc2) \<Rightarrow>
                 if \<not> m then query_loop_value n d r nm ex elements sc2
                 else Some (Inr (Some element), sc2))
          else Some (Inr (Some element), sc1))"

fun queryAll_loop_value ::
  "nat \<Rightarrow> dom \<Rightarrow> json option \<Rightarrow> json option \<Rightarrow> json option \<Rightarrow> ref list \<Rightarrow> style_cache
     \<Rightarrow> ((error + ref list) \<times> style_cache) option" where
  "queryAll_loop_value n d r nm ex [] sc = Some (Inr [], sc)"
| "queryAll_loop_value n d r nm ex (element # elements) sc =
     (case computeElementRole n d element sc of
        None \<Rightarrow> None
      | Some (elementRole, sc1) \<Rightarrow>
          if \<not> strictEquals elementRole r then queryAll_loop_value n d r nm ex elements sc1
          else if truthy_value nm then
            (case matchesNameFilter_value n d element nm ex sc1 of
               None \<Rightarrow> None
             | Some (Inl e, sc2) \<Rightarrow> Some (Inl e, sc2)
             | Some (Inr m, sc2) \<Rightarrow>
                 if \<not> m then queryAll_loop_value n d r nm ex elements sc2
                 else push element (queryAll_loop_value n d r nm ex elements sc2))
          else push element (queryAll_loop_value n d r nm ex elements sc1))"

text \<open>
  The two methods of the class \<^verbatim>\<open>SelectorEngine\<close>, from their first line: the parse,
  the destructuring, the early exit on a falsy role, and the loop over the traversal.
\<close>

definition SelectorEngine_query ::
  "nat \<Rightarrow> dom \<Rightarrow> ref \<Rightarrow> json option \<Rightarrow> style_cache \<Rightarrow> ((error + ref option) \<times> style_cache) option" where
  "SelectorEngine_query n d root selector sc =
     (case parse selector of
        Inl e \<Rightarrow> Some (Inl e, sc)
      | Inr payload \<Rightarrow>
          (case destructure payload of
             Inl e \<Rightarrow> Some (Inl e, sc)
           | Inr (r, nm, ex) \<Rightarrow>
               if \<not> truthy_value r then Some (Inr None, sc)
               else
                 case getElements n d root ({}, sc) of
                   None \<Rightarrow> None
                 | Some (elements, (visited1, sc1)) \<Rightarrow> query_loop_value n d r nm ex elements sc1))"

definition SelectorEngine_queryAll ::
  "nat \<Rightarrow> dom \<Rightarrow> ref \<Rightarrow> json option \<Rightarrow> style_cache \<Rightarrow> ((error + ref list) \<times> style_cache) option" where
  "SelectorEngine_queryAll n d root selector sc =
     (case parse selector of
        Inl e \<Rightarrow> Some (Inl e, sc)
      | Inr payload \<Rightarrow>
          (case destructure payload of
             Inl e \<Rightarrow> Some (Inl e, sc)
           | Inr (r, nm, ex) \<Rightarrow>
               if \<not> truthy_value r then Some (Inr [], sc)
               else
                 case getElements n d root ({}, sc) of
                   None \<Rightarrow> None
                 | Some (elements, (visited1, sc1)) \<Rightarrow> queryAll_loop_value n d r nm ex elements sc1))"

text \<open>
  The value of JSON that holds a payload of the declared type: an object with the
  members that the payload has, strings as strings and \<^verbatim>\<open>exact\<close> as a boolean.
\<close>

definition payloadOf :: "ParsedOptions \<Rightarrow> json" where
  "payloadOf p =
     JObject (List.map_filter (\<lambda>(k, v). map_option (Pair k) v)
       [(''role'', map_option JString (role p)),
        (''name'', map_option JString (name p)),
        (''description'', map_option JString (description p)),
        (''exact'', map_option JBoolean (exact p))])"

section \<open>The locator method\<close>

text \<open>
  \<^verbatim>\<open>JSON.stringify\<close> on the object that \<^verbatim>\<open>getByComputedRole\<close> builds: a member
  whose value is \<^verbatim>\<open>undefined\<close> is left out, a string is quoted with the escapes of
  JSON, \<^verbatim>\<open>true\<close> is written as such.
\<close>

definition hex_digit :: "nat \<Rightarrow> char" where
  "hex_digit k = (if k < 10 then char_of (48 + k) else char_of (87 + k))"

definition json_escape :: "char \<Rightarrow> string" where
  "json_escape c =
     (let k = (of_char c :: nat)
      in if c = CHR 0x22 then [CHR 0x5C, CHR 0x22]
         else if c = CHR 0x5C then [CHR 0x5C, CHR 0x5C]
         else if k = 8 then [CHR 0x5C, CHR ''b'']
         else if k = 12 then [CHR 0x5C, CHR ''f'']
         else if k = 10 then [CHR 0x5C, CHR ''n'']
         else if k = 13 then [CHR 0x5C, CHR ''r'']
         else if k = 9 then [CHR 0x5C, CHR ''t'']
         else if k < 32 then [CHR 0x5C, CHR ''u'', CHR ''0'', CHR ''0'', hex_digit (k div 16), hex_digit (k mod 16)]
         else [c])"

definition json_string :: "string \<Rightarrow> string" where
  "json_string s = [CHR 0x22] @ concat (map json_escape s) @ [CHR 0x22]"

definition json_bool :: "bool \<Rightarrow> string" where
  "json_bool b = (if b then ''true'' else ''false'')"

definition json_object :: "(string \<times> string option) list \<Rightarrow> string" where
  "json_object members =
     ''{'' @ join '','' (List.map_filter (\<lambda>(k, v). map_option (\<lambda>j. json_string k @ '':'' @ j) v) members) @ ''}''"

record Options =
  opt_name :: "string option"
  opt_description :: "string option"
  opt_exact :: "bool option"

text \<open>
  \<^verbatim>\<open>getByComputedRole(role, options)\<close>: the selector it passes to \<^verbatim>\<open>this.locator\<close>.
  The options are \<open>None\<close> when the call has none.
\<close>

definition getByComputedRole :: "string \<Rightarrow> Options option \<Rightarrow> string" where
  "getByComputedRole r options =
     (let payload = json_object
        [(''role'', Some (json_string r)),
         (''name'', if truthy_opt (Option.bind options opt_name)
                    then Some (json_string (the (Option.bind options opt_name))) else None),
         (''description'', if truthy_opt (Option.bind options opt_description)
                    then Some (json_string (the (Option.bind options opt_description))) else None),
         (''exact'', if Option.bind options opt_exact = Some True then Some (json_bool True) else None)]
      in ''computed-aria='' @ payload)"

section \<open>Example documents\<close>

definition blankNode :: node where
  "blankNode = \<lparr>nodeKind = OtherNode, tagName = [], attrs = Map.empty, parentElement = None,
     childNodes = [], ownerDocument = None, nodeValue = None, computedDisplay = ''block'',
     computedVisibility = ''visible'', html = None, slot = None, alt = None, prop_type = [],
     prop_value = [], prop_id = [], multiple = False, labels = None\<rparr>"

definition htmlElement :: "string \<Rightarrow> ref option \<Rightarrow> ref list \<Rightarrow> node" where
  "htmlElement tag parent children =
     blankNode\<lparr>nodeKind := ElementNode, tagName := tag, parentElement := parent, childNodes := children,
       ownerDocument := Some 0, html := Some (HTMLElement False [])\<rparr>"

definition textNode :: "string \<Rightarrow> ref option \<Rightarrow> node" where
  "textNode t parent =
     blankNode\<lparr>nodeKind := TextNode, nodeValue := Some t, parentElement := parent, ownerDocument := Some 0\<rparr>"

definition documentNode :: "ref list \<Rightarrow> node" where
  "documentNode children = blankNode\<lparr>nodeKind := DocumentNode, childNodes := children\<rparr>"

definition mkDom :: "(ref \<Rightarrow> node) \<Rightarrow> dom" where
  "mkDom ns = \<lparr>nodes = ns, getElementById = (\<lambda>doc i. None), querySelectorAllLabelFor = (\<lambda>doc i. []),
     internalsMap = Map.empty, shadowdomMap = Map.empty\<rparr>"

definition noOpts :: ComputeAccessibleNamesOptions where
  "noOpts = \<lparr>knownRole = None, cache = None, visited = None, allowNameFromContent = None\<rparr>"

text \<open>
  A custom element with the attributes \<^verbatim>\<open>role="tab"\<close> and \<^verbatim>\<open>aria-label="Attr"\<close>,
  whose internals give the role \<^verbatim>\<open>slider\<close> and the label \<^verbatim>\<open>Internal\<close>.
\<close>

definition labelDoc :: dom where
  "labelDoc = (mkDom (\<lambda>i. if i = 0 then documentNode [1]
                 else if i = 1 then (htmlElement ''MY-EL'' None [])
                        \<lparr>attrs := [''aria-label'' \<mapsto> ''Attr'', ''role'' \<mapsto> ''tab'']\<rparr>
                 else blankNode))
     \<lparr>internalsMap := [1 \<mapsto> \<lparr>internals_role = Some ''slider'', ariaLabel = Some ''Internal'',
                               ariaLabelledByElements = None\<rparr>]\<rparr>"

section \<open>Relating two runs\<close>

text \<open>
  A style cache is well formed when the declaration it holds for an element is the one
  that \<^verbatim>\<open>getComputedStyle\<close> returns for that element: the only write to the cache
  stores exactly that.
\<close>

definition cache_ok :: "style_cache \<Rightarrow> bool" where
  "cache_ok sc = (\<forall>e cs. sc e = Some cs \<longrightarrow> cs = getComputedStyle e)"

definition both_ok :: "style_cache \<Rightarrow> style_cache \<Rightarrow> bool" where
  "both_ok s s' = (cache_ok s \<and> cache_ok s')"

text \<open>
  \<open>le_res R a b\<close>: when the run \<open>a\<close> finishes, the run \<open>b\<close> finishes with the same
  value, in a state related to that of \<open>a\<close>.
\<close>

definition le_res :: "('s \<Rightarrow> 't \<Rightarrow> bool) \<Rightarrow> ('r \<times> 's) option \<Rightarrow> ('r \<times> 't) option \<Rightarrow> bool" where
  "le_res R a b = (\<forall>r s. a = Some (r, s) \<longrightarrow> (\<exists>s'. b = Some (r, s') \<and> R s s'))"

definition name_rel :: "name_state \<Rightarrow> name_state \<Rightarrow> bool" where
  "name_rel st st' = (case (st, st') of ((c, v, s), (c', v', s')) \<Rightarrow> c = c' \<and> v = v' \<and> both_ok s s')"

definition trav_rel :: "ref set \<times> style_cache \<Rightarrow> ref set \<times> style_cache \<Rightarrow> bool" where
  "trav_rel st st' = (fst st = fst st' \<and> both_ok (snd st) (snd st'))"

section \<open>The name filter\<close>

text \<open>
  The accessible name as the name filter computes it: the role of the element first,
  then the name with that role known (the two calls of \<^verbatim>\<open>matchesNameFilter\<close>), on an
  engine whose style cache is empty.
\<close>

definition accessibleNameForFilter :: "nat \<Rightarrow> dom \<Rightarrow> ref \<Rightarrow> string option" where
  "accessibleNameForFilter n d element =
     (case computeElementRole n d element Map.empty of
        None \<Rightarrow> None
      | Some (accessibleRole, sc1) \<Rightarrow>
          map_option (fst \<circ> fst)
            (computeAccessibleName n d element
               \<lparr>knownRole = accessibleRole, cache = None, visited = None, allowNameFromContent = None\<rparr> sc1))"

text \<open>A document with one button that has no content, hence an empty accessible name.\<close>

definition buttonDoc :: dom where
  "buttonDoc = mkDom (\<lambda>i. if i = 0 then documentNode [1]
                 else if i = 1 then htmlElement ''BUTTON'' None []
                 else blankNode)"

section \<open>Hidden elements\<close>

text \<open>
  The ways in which an element is hidden by itself: the \<^verbatim>\<open>hidden\<close> attribute,
  \<^verbatim>\<open>aria-hidden="true"\<close>, a computed display of \<^verbatim>\<open>none\<close>, a computed visibility of
  \<^verbatim>\<open>hidden\<close>, or the \<^verbatim>\<open>inert\<close> flag of an \<^verbatim>\<open>HTMLElement\<close>.
\<close>

definition hiddenCause :: "dom \<Rightarrow> ref \<Rightarrow> bool" where
  "hiddenCause d e =
     (nodeKind (nodes d e) = ElementNode
      \<and> (hasAttribute d e ''hidden''
         \<or> getAttribute d e ''aria-hidden'' = Some ''true''
         \<or> computedDisplay (nodes d e) = ''none''
         \<or> computedVisibility (nodes d e) = ''hidden''
         \<or> (case html (nodes d e) of Some h \<Rightarrow> inert h | None \<Rightarrow> False)))"

text \<open>
  \<open>ancestorAt d k e\<close> is the node reached from \<open>e\<close> by \<open>k\<close> steps along
  \<^verbatim>\<open>parentElement\<close>: \<open>e\<close> itself for \<open>k = 0\<close>, an ancestor of \<open>e\<close> otherwise.
\<close>

fun ancestorAt :: "dom \<Rightarrow> nat \<Rightarrow> ref \<Rightarrow> ref option" where
  "ancestorAt d 0 e = Some e"
| "ancestorAt d (Suc k) e = (case parentElement (nodes d e) of None \<Rightarrow> None | Some p \<Rightarrow> ancestorAt d k p)"

text \<open>An element is visible when neither it nor an ancestor is hidden by itself.\<close>

definition visible :: "dom \<Rightarrow> ref \<Rightarrow> bool" where
  "visible d y = (\<forall>k a. ancestorAt d k y = Some a \<longrightarrow> \<not> hiddenCause d a)"

text \<open>
  A document with a hidden \<^verbatim>\<open>div\<close> (1) that holds a button (2), and a button (4)
  outside of it.
\<close>

definition hiddenDoc :: dom where
  "hiddenDoc = mkDom (\<lambda>i.
     if i = 0 then documentNode [1, 4]
     else if i = 1 then (htmlElement ''DIV'' None [2])\<lparr>attrs := [''hidden'' \<mapsto> []]\<rparr>
     else if i = 2 then htmlElement ''BUTTON'' (Some 1) [3]
     else if i = 3 then textNode ''Hidden'' (Some 2)
     else if i = 4 then htmlElement ''BUTTON'' None [5]
     else if i = 5 then textNode ''Shown'' (Some 4)
     else blankNode)"

section \<open>Shadow hosts\<close>

text \<open>The document in which the child list of one node is replaced.\<close>

definition withChildNodes :: "dom \<Rightarrow> ref \<Rightarrow> ref list \<Rightarrow> dom" where
  "withChildNodes d host cs = d\<lparr>nodes := (nodes d)(host := (nodes d host)\<lparr>childNodes := cs\<rparr>)\<rparr>"

text \<open>
  A shadow host: an element for which \<^verbatim>\<open>shadowdomMap\<close> holds a shadow root, and
  which is not itself the shadow root of an element (a shadow root is a document
  fragment, not an element).
\<close>

definition shadowHost :: "dom \<Rightarrow> ref \<Rightarrow> bool" where
  "shadowHost d host =
     (nodeKind (nodes d host) = ElementNode \<and> shadowdomMap d host \<noteq> None \<and> host \<notin> ran (shadowdomMap d))"

text \<open>
  A custom element (1) whose light child is a button (2) with the text \<^verbatim>\<open>Go\<close>, and
  whose shadow root (3) holds a slot (4) to which the button is assigned.
\<close>

definition slotDoc :: dom where
  "slotDoc = (mkDom (\<lambda>i.
     if i = 0 then documentNode [1]
     else if i = 1 then htmlElement ''MY-EL'' None [2]
     else if i = 2 then htmlElement ''BUTTON'' (Some 1) [5]
     else if i = 3 then blankNode\<lparr>nodeKind := FragmentNode, childNodes := [4], ownerDocument := Some 0\<rparr>
     else if i = 4 then (htmlElement ''SLOT'' None [])\<lparr>slot := Some (HTMLSlotElement [2] [2])\<rparr>
     else if i = 5 then textNode ''Go'' (Some 2)
     else blankNode))\<lparr>shadowdomMap := [1 \<mapsto> 3]\<rparr>"

section \<open>Tree-shaped documents\<close>

text \<open>
  The nodes into which the text extraction of a node descends: the nodes assigned to a
  slot, the children of the shadow root of a host, the children of any other node.
\<close>

definition content :: "dom \<Rightarrow> ref \<Rightarrow> ref set" where
  "content d x =
     (case slot (nodes d x) of Some sl \<Rightarrow> set (assignedNodes sl) | None \<Rightarrow> {})
     \<union> (case shadowdomMap d x of
          Some r \<Rightarrow> set (childNodes (nodes d r))
        | None \<Rightarrow> set (childNodes (nodes d x)))"

text \<open>
  A document is tree shaped when its nodes have a depth, bounded by \<open>H\<close>, that
  decreases along \<^verbatim>\<open>parentElement\<close> and increases from a node to its content: the
  ancestor walk and the text extraction then come to an end.
\<close>

definition treeShaped :: "dom \<Rightarrow> (ref \<Rightarrow> nat) \<Rightarrow> nat \<Rightarrow> bool" where
  "treeShaped d depth H =
     (\<forall>x. depth x \<le> H
          \<and> (\<forall>p. parentElement (nodes d x) = Some p \<longrightarrow> depth p < depth x)
          \<and> (\<forall>c \<in> content d x. depth x < depth c))"

text \<open>
  The elements that name an element by cross reference, as \<^verbatim>\<open>computeAccessibleName\<close>
  finds them: those of the internals, else those of the \<^verbatim>\<open>aria-labelledby\<close> attribute.
\<close>

definition labelledByElements :: "dom \<Rightarrow> ref \<Rightarrow> ref list" where
  "labelledByElements d el =
     (case Option.bind (internalsMap d el) ariaLabelledByElements of
        Some refs \<Rightarrow> refs
      | None \<Rightarrow> getLabelledByElementsByAttribute d el)"

text \<open>The visited set that the options carry, empty when they carry none.\<close>

definition visitedOf :: "ComputeAccessibleNamesOptions \<Rightarrow> ref set" where
  "visitedOf opts = (case visited opts of Some v \<Rightarrow> v | None \<Rightarrow> {})"

text \<open>
  Two elements that name each other: (1) with the text \<^verbatim>\<open>Alpha\<close> is labelled by (2),
  and (2) with the text \<^verbatim>\<open>Beta\<close> is labelled by (1).
\<close>

definition cycleDoc :: dom where
  "cycleDoc = (mkDom (\<lambda>i.
     if i = 0 then documentNode [1, 2]
     else if i = 1 then (htmlElement ''DIV'' None [3])\<lparr>attrs := [''aria-labelledby'' \<mapsto> ''b''], prop_id := ''a''\<rparr>
     else if i = 2 then (htmlElement ''DIV'' None [4])\<lparr>attrs := [''aria-labelledby'' \<mapsto> ''a''], prop_id := ''b''\<rparr>
     else if i = 3 then textNode ''Alpha'' (Some 1)
     else if i = 4 then textNode ''Beta'' (Some 2)
     else blankNode))
     \<lparr>getElementById := (\<lambda>doc i. if i = ''a'' then Some 1 else if i = ''b'' then Some 2 else None)\<rparr>"

definition cycleDepth :: "ref \<Rightarrow> nat" where
  "cycleDepth i = (if i = 1 \<or> i = 2 then 1 else if i = 3 \<or> i = 4 then 2 else 0)"

text \<open>
  The nodes that the traversal enters from a node: the elements assigned to a slot, the
  shadow root of a host, the children.
\<close>

definition successors :: "dom \<Rightarrow> ref \<Rightarrow> ref set" where
  "successors d x =
     (case slot (nodes d x) of Some sl \<Rightarrow> set (assignedElements sl) | None \<Rightarrow> {})
     \<union> (case shadowdomMap d x of Some r \<Rightarrow> {r} | None \<Rightarrow> {})
     \<union> set (childNodes (nodes d x))"

text \<open>
  A set of nodes is closed when the traversal and the cross references of its nodes stay
  inside it.
\<close>

definition closedNodes :: "dom \<Rightarrow> ref set \<Rightarrow> bool" where
  "closedNodes d N = (\<forall>x \<in> N. successors d x \<subseteq> N \<and> set (labelledByElements d x) \<subseteq> N)"

section \<open>Fuel and the style cache\<close>

text \<open>
  More fuel never changes a result, and neither does the content of a well-formed style
  cache: every function of the engine, run with at least as much fuel from another
  well-formed cache, returns the same value.
\<close>

lemma le_res_None [simp]: "le_res R None b"
  by (simp add: le_res_def)

lemma le_res_Some [simp]: "le_res R (Some (r, s)) b = (\<exists>s'. b = Some (r, s') \<and> R s s')"
  by (auto simp: le_res_def)

lemma le_resI: "(\<And>r s. a = Some (r, s) \<Longrightarrow> \<exists>s'. b = Some (r, s') \<and> R s s') \<Longrightarrow> le_res R a b"
  by (simp add: le_res_def)

lemma le_resD: "le_res R a b \<Longrightarrow> a = Some (r, s) \<Longrightarrow> \<exists>s'. b = Some (r, s') \<and> R s s'"
  by (simp add: le_res_def)

lemma mapM_le:
  assumes "\<And>x s s'. x \<in> set xs \<Longrightarrow> R s s' \<Longrightarrow> le_res R (f x s) (g x s')" and "R s s'"
  shows "le_res R (mapM f xs s) (mapM g xs s')"
  using assms
proof (induction xs arbitrary: s s')
  case Nil
  then show ?case by simp
next
  case (Cons x xs)
  show ?case
  proof (rule le_resI)
    fix r t assume a: "mapM f (x # xs) s = Some (r, t)"
    then obtain y s1 ys where fx: "f x s = Some (y, s1)" and rest: "mapM f xs s1 = Some (ys, t)" and r: "r = y # ys"
      by (auto split: option.splits)
    from Cons.prems(1) [of x s s'] Cons.prems(2) fx obtain s1' where gx: "g x s' = Some (y, s1')" and R1: "R s1 s1'"
      by auto
    have "le_res R (mapM f xs s1) (mapM g xs s1')"
      by (rule Cons.IH) (auto intro: Cons.prems(1) R1)
    with rest obtain t' where "mapM g xs s1' = Some (ys, t')" "R t t'" by auto
    with gx r show "\<exists>s'a. mapM g (x # xs) s' = Some (r, s'a) \<and> R t s'a" by simp
  qed
qed

lemma normalized_le: "le_res R a b \<Longrightarrow> le_res R (normalized a) (normalized b)"
  by (auto simp: le_res_def normalized_def split: option.splits)

lemma cache_ok_lookup: "cache_ok sc \<Longrightarrow> (case sc node of Some cs \<Rightarrow> cs | None \<Rightarrow> getComputedStyle node) = getComputedStyle node"
  by (auto simp: cache_ok_def split: option.splits)

lemma cache_ok_store: "cache_ok sc \<Longrightarrow> cache_ok (case sc node of Some cs \<Rightarrow> sc | None \<Rightarrow> sc(node \<mapsto> getComputedStyle node))"
  by (auto simp: cache_ok_def split: option.splits)

lemma isElementHidden_loop_le:
  "n \<le> m \<Longrightarrow> both_ok s s' \<Longrightarrow> le_res both_ok (isElementHidden_loop n d x s) (isElementHidden_loop m d x s')"
proof (induction n arbitrary: m x s s')
  case 0
  then show ?case by simp
next
  case (Suc n)
  then obtain m' where m: "m = Suc m'" and nm: "n \<le> m'" by (cases m) auto
  show ?case
  proof (cases x)
    case None
    with Suc.prems m show ?thesis by simp
  next
    case (Some node)
    let ?t = "case s node of Some cs \<Rightarrow> s | None \<Rightarrow> s(node \<mapsto> getComputedStyle node)"
    let ?t' = "case s' node of Some cs \<Rightarrow> s' | None \<Rightarrow> s'(node \<mapsto> getComputedStyle node)"
    from Suc.prems have ok: "cache_ok s" "cache_ok s'" by (auto simp: both_ok_def)
    have t: "both_ok ?t ?t'" using ok by (simp add: both_ok_def cache_ok_store)
    have l: "(case s node of Some cs \<Rightarrow> cs | None \<Rightarrow> getComputedStyle node) = getComputedStyle node"
      "(case s' node of Some cs \<Rightarrow> cs | None \<Rightarrow> getComputedStyle node) = getComputedStyle node"
      using ok by (simp_all add: cache_ok_lookup)
    have r1: "le_res both_ok (isElementHidden_loop n d (parentElement (nodes d node)) ?t)
                (isElementHidden_loop m' d (parentElement (nodes d node)) ?t')"
      by (rule Suc.IH [OF nm t])
    have r2: "le_res both_ok (isElementHidden_loop n d (parentElement (nodes d node)) s)
                (isElementHidden_loop m' d (parentElement (nodes d node)) s')"
      by (rule Suc.IH [OF nm Suc.prems(2)])
    show ?thesis
      using Some m r1 r2 t Suc.prems(2) by (simp add: Let_def l)
  qed
qed

lemma isElementHidden_le:
  "n \<le> m \<Longrightarrow> both_ok s s' \<Longrightarrow> le_res both_ok (isElementHidden n d x s) (isElementHidden m d x s')"
  by (simp add: isElementHidden_def isElementHidden_loop_le)

lemma le_res_bind:
  assumes "le_res R a b" and "\<And>r s s'. R s s' \<Longrightarrow> le_res Q (k r s) (k' r s')"
  shows "le_res Q (case a of None \<Rightarrow> None | Some (r, s) \<Rightarrow> k r s) (case b of None \<Rightarrow> None | Some (r, s) \<Rightarrow> k' r s)"
  using assms by (cases a) (auto simp: le_res_def)

lemma le_res_refl: "R s s' \<Longrightarrow> le_res R (Some (r, s)) (Some (r, s'))"
  by simp

lemma le_res_if:
  "(c \<Longrightarrow> le_res R a b) \<Longrightarrow> (\<not> c \<Longrightarrow> le_res R a' b') \<Longrightarrow> le_res R (if c then a else a') (if c then b else b')"
  by simp

lemma le_res_case_option:
  "(x = None \<Longrightarrow> le_res R g g') \<Longrightarrow> (\<And>v. x = Some v \<Longrightarrow> le_res R (f v) (f' v))
   \<Longrightarrow> le_res R (case x of None \<Rightarrow> g | Some v \<Rightarrow> f v) (case x of None \<Rightarrow> g' | Some v \<Rightarrow> f' v)"
  by (cases x) simp_all

lemma asText_le:
  "n \<le> m \<Longrightarrow> both_ok s s' \<Longrightarrow> le_res both_ok (asText n d x s) (asText m d x s')"
proof (induction n arbitrary: m x s s')
  case 0
  then show ?case by simp
next
  case (Suc n)
  then obtain m' where m: "m = Suc m'" and nm: "n \<le> m'" by (cases m) auto
  have IH: "\<And>xs t t'. both_ok t t' \<Longrightarrow> le_res both_ok (normalized (mapM (asText n d) xs t)) (normalized (mapM (asText m' d) xs t'))"
    by (intro normalized_le mapM_le Suc.IH nm)
  have hid: "le_res both_ok (isElementHidden (Suc n) d x s) (isElementHidden (Suc m') d x s')"
    using Suc.prems m by (intro isElementHidden_le) auto
  show ?case
    unfolding m asText.simps
    by (intro le_res_if le_res_bind [OF hid] le_res_case_option IH le_res_refl Suc.prems(2))
qed

lemma le_res_case_prod:
  "(\<And>a b. p = (a, b) \<Longrightarrow> le_res R (f a b) (g a b))
   \<Longrightarrow> le_res R (case p of (a, b) \<Rightarrow> f a b) (case p of (a, b) \<Rightarrow> g a b)"
  by (cases p) simp

lemma associatedLabelText_le:
  "n \<le> m \<Longrightarrow> both_ok s s' \<Longrightarrow> le_res both_ok (associatedLabelText n d x s) (associatedLabelText m d x s')"
proof -
  assume nm: "n \<le> m" and ok: "both_ok s s'"
  have T: "\<And>xs t t'. both_ok t t' \<Longrightarrow> le_res both_ok (normalized (mapM (asText n d) xs t)) (normalized (mapM (asText m d) xs t'))"
    by (intro normalized_le mapM_le asText_le nm)
  show ?thesis
    unfolding associatedLabelText_def
    by (intro le_res_if le_res_bind [where R = both_ok] le_res_case_option T le_res_refl ok)
qed

lemma nameFromMarkup_le:
  "n \<le> m \<Longrightarrow> both_ok s s' \<Longrightarrow> le_res both_ok (nameFromMarkup n d x s) (nameFromMarkup m d x s')"
  unfolding nameFromMarkup_def Let_def
  by (intro le_res_if le_res_bind [where R = both_ok] le_res_case_option associatedLabelText_le le_res_refl)

lemma nameFromContent_le:
  "n \<le> m \<Longrightarrow> both_ok s s' \<Longrightarrow> le_res both_ok (nameFromContent n d x a r s) (nameFromContent m d x a r s')"
  unfolding nameFromContent_def
  by (intro le_res_if le_res_bind [where R = both_ok] le_res_case_option asText_le le_res_refl)

lemma name_rel_simp [simp]: "name_rel (c, v, s) (c', v', s') = (c = c' \<and> v = v' \<and> both_ok s s')"
  by (simp add: name_rel_def)

lemma le_res_bind3:
  assumes "le_res name_rel a b" and "\<And>r c v s s'. both_ok s s' \<Longrightarrow> le_res Q (k r c v s) (k' r c v s')"
  shows "le_res Q (case a of None \<Rightarrow> None | Some (r, (c, v, s)) \<Rightarrow> k r c v s)
                  (case b of None \<Rightarrow> None | Some (r, (c, v, s)) \<Rightarrow> k' r c v s)"
  using assms by (cases a) (auto simp: le_res_def)

lemma cacheAndReturn_le: "both_ok s s' \<Longrightarrow> le_res both_ok (cacheAndReturn c v el t s) (cacheAndReturn c v el t s')"
  by (simp add: cacheAndReturn_def)

lemma name_adapt_le:
  assumes "\<And>s s'. both_ok s s' \<Longrightarrow> le_res both_ok (f c v s) (g c v s')" and "name_rel (c, v, s) st'"
  shows "le_res name_rel
           (case (c, v, s) of (c, v, s) \<Rightarrow> case f c v s of None \<Rightarrow> None | Some ((t, c', v'), s') \<Rightarrow> Some (t, (c', v', s')))
           (case st' of (c, v, s) \<Rightarrow> case g c v s of None \<Rightarrow> None | Some ((t, c', v'), s') \<Rightarrow> Some (t, (c', v', s')))"
proof -
  obtain s' where st': "st' = (c, v, s')" and ok: "both_ok s s'"
    using assms(2) by (cases st') auto
  from assms(1) [OF ok] show ?thesis
    by (auto simp: st' le_res_def split: option.splits)
qed

lemma role_name_le:
  "(\<forall>m x s s'. n \<le> m \<longrightarrow> both_ok s s' \<longrightarrow> le_res both_ok (computeElementRole n d x s) (computeElementRole m d x s'))
   \<and> (\<forall>m x opts s s'. n \<le> m \<longrightarrow> both_ok s s'
         \<longrightarrow> le_res both_ok (computeAccessibleName n d x opts s) (computeAccessibleName m d x opts s'))"
proof (induction n)
  case 0
  show ?case by simp
next
  case (Suc n)
  have IHr: "\<And>m x s s'. n \<le> m \<Longrightarrow> both_ok s s' \<Longrightarrow> le_res both_ok (computeElementRole n d x s) (computeElementRole m d x s')"
    and IHn: "\<And>m x opts s s'. n \<le> m \<Longrightarrow> both_ok s s'
         \<Longrightarrow> le_res both_ok (computeAccessibleName n d x opts s) (computeAccessibleName m d x opts s')"
    using Suc.IH by blast+
  have role: "le_res both_ok (computeElementRole (Suc n) d x s) (computeElementRole m d x s')"
    if "Suc n \<le> m" and ok: "both_ok s s'" for m x s s'
  proof -
    from that obtain m' where m: "m = Suc m'" and nm: "n \<le> m'" by (cases m) auto
    show ?thesis
      unfolding m computeElementRole.simps Let_def
      by (intro le_res_if le_res_bind [where R = both_ok] le_res_case_option le_res_case_prod IHn nm le_res_refl ok)
  qed
  have name: "le_res both_ok (computeAccessibleName (Suc n) d x opts s) (computeAccessibleName m d x opts s')"
    if "Suc n \<le> m" and ok: "both_ok s s'" for m x opts s s'
  proof -
    from that obtain m' where m: "m = Suc m'" and nm: "n \<le> m'" by (cases m) auto
    have refs: "le_res name_rel
           (mapM (\<lambda>ref (c, v, s). case computeAccessibleName n d ref (opts\<lparr>cache := Some c, visited := Some v, allowNameFromContent := Some True\<rparr>) s of
                      None \<Rightarrow> None | Some ((t, c', v'), s') \<Rightarrow> Some (t, (c', v', s'))) xs st)
           (mapM (\<lambda>ref (c, v, s). case computeAccessibleName m' d ref (opts\<lparr>cache := Some c, visited := Some v, allowNameFromContent := Some True\<rparr>) s of
                      None \<Rightarrow> None | Some ((t, c', v'), s') \<Rightarrow> Some (t, (c', v', s'))) xs st')"
      if "name_rel st st'" for xs st st'
    proof (rule mapM_le [where R = name_rel])
      show "name_rel st st'" by fact
    next
      fix x t t' assume r: "name_rel t t'"
      obtain c v s where t: "t = (c, v, s)" by (cases t) auto
      show "le_res name_rel
          (case t of (c, v, s) \<Rightarrow> case computeAccessibleName n d x (opts\<lparr>cache := Some c, visited := Some v, allowNameFromContent := Some True\<rparr>) s of
                      None \<Rightarrow> None | Some ((t, c', v'), s') \<Rightarrow> Some (t, (c', v', s')))
          (case t' of (c, v, s) \<Rightarrow> case computeAccessibleName m' d x (opts\<lparr>cache := Some c, visited := Some v, allowNameFromContent := Some True\<rparr>) s of
                      None \<Rightarrow> None | Some ((t, c', v'), s') \<Rightarrow> Some (t, (c', v', s')))"
        unfolding t
        by (rule name_adapt_le [where f = "\<lambda>c v s. computeAccessibleName n d x (opts\<lparr>cache := Some c, visited := Some v, allowNameFromContent := Some True\<rparr>) s"
               and g = "\<lambda>c v s. computeAccessibleName m' d x (opts\<lparr>cache := Some c, visited := Some v, allowNameFromContent := Some True\<rparr>) s"])
           (use r t in \<open>auto intro: IHn nm\<close>)
    qed
    have sm: "Suc n \<le> Suc m'" using nm by simp
    show ?thesis
      unfolding m computeAccessibleName.simps Let_def
      by (intro le_res_if le_res_bind3 le_res_bind [where R = both_ok] le_res_case_option le_res_case_prod
            normalized_le refs cacheAndReturn_le nameFromMarkup_le nameFromContent_le IHr nm sm le_res_refl ok)
         (simp_all add: ok)
  qed
  from role name show ?case by blast
qed

lemmas computeElementRole_le = role_name_le [THEN conjunct1, rule_format]

lemmas computeAccessibleName_le = role_name_le [THEN conjunct2, rule_format]

lemma matchesNameFilter_le:
  "n \<le> m \<Longrightarrow> both_ok s s' \<Longrightarrow> le_res both_ok (matchesNameFilter n d x nm ex s) (matchesNameFilter m d x nm ex s')"
  unfolding matchesNameFilter_def
  by (intro le_res_if le_res_bind [where R = both_ok] le_res_case_option le_res_case_prod
        computeElementRole_le computeAccessibleName_le le_res_refl)

lemma trav_rel_simp [simp]: "trav_rel (v, s) (v', s') = (v = v' \<and> both_ok s s')"
  by (simp add: trav_rel_def)

lemma yieldFirst_le: "le_res R a b \<Longrightarrow> le_res R (yieldFirst y a) (yieldFirst y b)"
  by (auto simp: le_res_def yieldFirst_def split: option.splits)

lemma yieldAll_le: "le_res R a b \<Longrightarrow> le_res R (yieldAll a) (yieldAll b)"
  by (auto simp: le_res_def yieldAll_def split: option.splits)

lemma getElements_le:
  "n \<le> m \<Longrightarrow> trav_rel st st' \<Longrightarrow> le_res trav_rel (getElements n d x st) (getElements m d x st')"
proof (induction n arbitrary: m x st st')
  case 0
  then show ?case by simp
next
  case (Suc n)
  then obtain m' where m: "m = Suc m'" and nm: "n \<le> m'" by (cases m) auto
  obtain v s s' where st: "st = (v, s)" "st' = (v, s')" and ok: "both_ok s s'"
    using Suc.prems(2) by (cases st; cases st') auto
  have sm: "Suc n \<le> Suc m'" using nm by simp
  have M: "\<And>xs t t'. trav_rel t t' \<Longrightarrow> le_res trav_rel (mapM (getElements n d) xs t) (mapM (getElements m' d) xs t')"
    by (intro mapM_le Suc.IH nm)
  show ?case
    unfolding m st getElements.simps Let_def if_distribR
    by (intro le_res_if le_res_bind [where R = both_ok] le_res_case_option le_res_case_prod
          yieldFirst_le yieldAll_le M Suc.IH nm isElementHidden_le sm le_res_refl ok)
       (simp_all add: ok)
qed

lemma query_loop_le:
  "n \<le> m \<Longrightarrow> both_ok s s' \<Longrightarrow> le_res both_ok (query_loop n d r nm ex xs s) (query_loop m d r nm ex xs s')"
proof (induction xs arbitrary: s s')
  case Nil
  then show ?case by simp
next
  case (Cons x xs)
  show ?case
    unfolding query_loop.simps
    by (intro le_res_if le_res_bind [where R = both_ok] le_res_case_option le_res_case_prod
          computeElementRole_le matchesNameFilter_le Cons.IH Cons.prems le_res_refl)
qed

lemma queryAll_loop_le:
  "n \<le> m \<Longrightarrow> both_ok s s' \<Longrightarrow> le_res both_ok (queryAll_loop n d r nm ex xs s) (queryAll_loop m d r nm ex xs s')"
proof (induction xs arbitrary: s s')
  case Nil
  then show ?case by simp
next
  case (Cons x xs)
  show ?case
    unfolding queryAll_loop.simps
    by (intro le_res_if le_res_bind [where R = both_ok] le_res_case_option le_res_case_prod yieldFirst_le
          computeElementRole_le matchesNameFilter_le Cons.IH Cons.prems le_res_refl)
qed

lemma le_res_bind_trav:
  assumes "le_res trav_rel a b" and "\<And>r v s s'. both_ok s s' \<Longrightarrow> le_res Q (k r v s) (k' r v s')"
  shows "le_res Q (case a of None \<Rightarrow> None | Some (r, (v, s)) \<Rightarrow> k r v s)
                  (case b of None \<Rightarrow> None | Some (r, (v, s)) \<Rightarrow> k' r v s)"
  using assms by (cases a) (auto simp: le_res_def)

lemma query_le:
  "n \<le> m \<Longrightarrow> both_ok s s' \<Longrightarrow> le_res both_ok (query n d root p s) (query m d root p s')"
  unfolding query_def
  by (intro le_res_if le_res_bind_trav getElements_le query_loop_le le_res_refl) simp_all

lemma queryAll_le:
  "n \<le> m \<Longrightarrow> both_ok s s' \<Longrightarrow> le_res both_ok (queryAll n d root p s) (queryAll m d root p s')"
  unfolding queryAll_def
  by (intro le_res_if le_res_bind_trav getElements_le queryAll_loop_le le_res_refl) simp_all

lemma le_res_both_fst:
  assumes "le_res R a b" and "le_res R' b a"
  shows "map_option fst a = map_option fst b"
  using assms by (cases a; cases b) (auto simp: le_res_def)

lemma cache_ok_empty [simp]: "cache_ok Map.empty"
  by (simp add: cache_ok_def)

section \<open>Well-formed caches\<close>

text \<open>
  Every function of the engine leaves a well-formed style cache well formed, so every
  cache that an engine reaches from the empty one is well formed.
\<close>

lemma le_res_self_ok:
  assumes "le_res both_ok a a" and "a = Some (r, s')"
  shows "cache_ok s'"
  using assms by (auto simp: le_res_def both_ok_def)

lemma both_ok_refl: "cache_ok s \<Longrightarrow> both_ok s s"
  by (simp add: both_ok_def)

lemma computeElementRole_ok:
  "cache_ok s \<Longrightarrow> computeElementRole n d x s = Some (r, s') \<Longrightarrow> cache_ok s'"
  by (rule le_res_self_ok [OF computeElementRole_le [OF le_refl both_ok_refl]])

lemma matchesNameFilter_ok:
  "cache_ok s \<Longrightarrow> matchesNameFilter n d x nm ex s = Some (r, s') \<Longrightarrow> cache_ok s'"
  by (rule le_res_self_ok [OF matchesNameFilter_le [OF le_refl both_ok_refl]])

lemma getElements_ok:
  "cache_ok s \<Longrightarrow> getElements n d x (v, s) = Some (ys, v', s') \<Longrightarrow> cache_ok s'"
  using getElements_le [of n n "(v, s)" "(v, s)" d x]
  by (auto simp: le_res_def both_ok_def)

lemma query_ok:
  "cache_ok s \<Longrightarrow> query n d root p s = Some (r, s') \<Longrightarrow> cache_ok s'"
  by (rule le_res_self_ok [OF query_le [OF le_refl both_ok_refl]])

lemma queryAll_ok:
  "cache_ok s \<Longrightarrow> queryAll n d root p s = Some (r, s') \<Longrightarrow> cache_ok s'"
  by (rule le_res_self_ok [OF queryAll_le [OF le_refl both_ok_refl]])

lemma fresh_name_state:
  "computeAccessibleName n d el (opts\<lparr>cache := None, visited := None\<rparr>) sc
     = computeAccessibleName n d el (opts\<lparr>cache := Some Map.empty, visited := Some {}\<rparr>) sc"
  by (cases n) (simp_all cong: option.case_cong prod.case_cong if_cong)

section \<open>Matching names\<close>

lemma matchesNameFilter_True:
  assumes "matchesNameFilter n d e nm ex s = Some (True, s')"
  shows "\<exists>r s1 t c v. computeElementRole n d e s = Some (r, s1)
           \<and> computeAccessibleName n d e \<lparr>knownRole = r, cache = None, visited = None, allowNameFromContent = None\<rparr> s1
               = Some ((t, c, v), s')
           \<and> truthy t"
  using assms unfolding matchesNameFilter_def
  by (auto split: if_splits option.splits prod.splits)

lemma empty_name_no_match:
  assumes e: "accessibleNameForFilter m d e = Some []" and ok: "cache_ok s"
  shows "matchesNameFilter n d e nm ex s \<noteq> Some (True, s')"
proof
  assume "matchesNameFilter n d e nm ex s = Some (True, s')"
  from matchesNameFilter_True [OF this] obtain r s1 t c v where
    r: "computeElementRole n d e s = Some (r, s1)" and
    t: "computeAccessibleName n d e \<lparr>knownRole = r, cache = None, visited = None, allowNameFromContent = None\<rparr> s1
          = Some ((t, c, v), s')" and tt: "truthy t"
    by blast
  from e obtain r0 s0 c0 v0 s0' where
    r0: "computeElementRole m d e Map.empty = Some (r0, s0)" and
    t0: "computeAccessibleName m d e \<lparr>knownRole = r0, cache = None, visited = None, allowNameFromContent = None\<rparr> s0
          = Some (([], c0, v0), s0')"
    unfolding accessibleNameForFilter_def by (auto split: option.splits)
  have ok1: "cache_ok s1" using ok r by (rule computeElementRole_ok)
  have ok0: "cache_ok s0" using cache_ok_empty r0 by (rule computeElementRole_ok)
  show False
  proof (cases "n \<le> m")
    case True
    from computeElementRole_le [OF True, of s Map.empty d e] ok r r0 have rr: "r0 = r"
      by (auto simp: both_ok_def)
    from computeAccessibleName_le [OF True, of s1 s0 d e "\<lparr>knownRole = r, cache = None, visited = None, allowNameFromContent = None\<rparr>"]
      ok1 ok0 t t0 rr have "t = []" by (auto simp: both_ok_def)
    with tt show False by (simp add: truthy_def)
  next
    case False
    then have mn: "m \<le> n" by simp
    from computeElementRole_le [OF mn, of Map.empty s d e] ok r r0 have rr: "r0 = r"
      by (auto simp: both_ok_def)
    from computeAccessibleName_le [OF mn, of s0 s1 d e "\<lparr>knownRole = r, cache = None, visited = None, allowNameFromContent = None\<rparr>"]
      ok1 ok0 t t0 rr have "t = []" by (auto simp: both_ok_def)
    with tt show False by (simp add: truthy_def)
  qed
qed

lemma queryAll_loop_filtered:
  assumes "queryAll_loop n d r nm ex xs s = Some (res, s')" and "cache_ok s" and "e \<in> set res" and "truthy_opt nm"
  shows "\<exists>s1 s2. cache_ok s1 \<and> matchesNameFilter n d e nm ex s1 = Some (True, s2)"
  using assms
proof (induction xs arbitrary: s res)
  case Nil
  then show ?case by simp
next
  case (Cons x xs)
  from Cons.prems(1) obtain er s1 where er: "computeElementRole n d x s = Some (er, s1)"
    by (auto split: option.splits)
  have ok1: "cache_ok s1" using Cons.prems(2) er by (rule computeElementRole_ok)
  show ?case
  proof (cases "er \<noteq> Some r")
    case True
    with Cons.prems er have "queryAll_loop n d r nm ex xs s1 = Some (res, s')" by simp
    from Cons.IH [OF this ok1 Cons.prems(3,4)] show ?thesis .
  next
    case False
    with Cons.prems er obtain b s2 where m: "matchesNameFilter n d x nm ex s1 = Some (b, s2)"
      by (auto split: option.splits)
    have ok2: "cache_ok s2" using ok1 m by (rule matchesNameFilter_ok)
    show ?thesis
    proof (cases b)
      case True
      with False Cons.prems er m obtain res' where
        rest: "queryAll_loop n d r nm ex xs s2 = Some (res', s')" and res: "res = x # res'"
        by (auto simp: yieldFirst_def split: option.splits)
      show ?thesis
      proof (cases "e = x")
        case True
        with m \<open>b\<close> ok1 show ?thesis by auto
      next
        case False
        with res Cons.prems(3) have "e \<in> set res'" by simp
        from Cons.IH [OF rest ok2 this Cons.prems(4)] show ?thesis .
      qed
    next
      case b: False
      with False Cons.prems er m have "queryAll_loop n d r nm ex xs s2 = Some (res, s')" by simp
      from Cons.IH [OF this ok2 Cons.prems(3,4)] show ?thesis .
    qed
  qed
qed

lemma query_loop_filtered:
  assumes "query_loop n d r nm ex xs s = Some (Some e, s')" and "cache_ok s" and "truthy_opt nm"
  shows "\<exists>s1 s2. cache_ok s1 \<and> matchesNameFilter n d e nm ex s1 = Some (True, s2)"
  using assms
proof (induction xs arbitrary: s)
  case Nil
  then show ?case by simp
next
  case (Cons x xs)
  from Cons.prems(1) obtain er s1 where er: "computeElementRole n d x s = Some (er, s1)"
    by (auto split: option.splits)
  have ok1: "cache_ok s1" using Cons.prems(2) er by (rule computeElementRole_ok)
  show ?case
  proof (cases "er \<noteq> Some r")
    case True
    with Cons.prems er have "query_loop n d r nm ex xs s1 = Some (Some e, s')" by simp
    from Cons.IH [OF this ok1 Cons.prems(3)] show ?thesis .
  next
    case False
    with Cons.prems er obtain b s2 where m: "matchesNameFilter n d x nm ex s1 = Some (b, s2)"
      by (auto split: option.splits)
    have ok2: "cache_ok s2" using ok1 m by (rule matchesNameFilter_ok)
    show ?thesis
    proof (cases b)
      case True
      with False Cons.prems er m have "e = x" by simp
      with m \<open>b\<close> ok1 show ?thesis by auto
    next
      case b: False
      with False Cons.prems er m have "query_loop n d r nm ex xs s2 = Some (Some e, s')" by simp
      from Cons.IH [OF this ok2 Cons.prems(3)] show ?thesis .
    qed
  qed
qed

section \<open>Visibility of what is yielded\<close>

lemma display_getComputedStyle [simp]:
  "display d (getComputedStyle e) = computedDisplay (nodes d e)"
  "visibility d (getComputedStyle e) = computedVisibility (nodes d e)"
  by (simp_all add: getComputedStyle_def)

lemma isElementHidden_loop_step:
  assumes "cache_ok s"
  shows "\<exists>t. cache_ok t \<and> isElementHidden_loop (Suc n) d (Some e) s
           = (if hiddenCause d e then Some (True, t) else isElementHidden_loop n d (parentElement (nodes d e)) t)"
proof -
  let ?t = "case s e of Some cs \<Rightarrow> s | None \<Rightarrow> s(e \<mapsto> getComputedStyle e)"
  have l: "(case s e of Some cs \<Rightarrow> cs | None \<Rightarrow> getComputedStyle e) = getComputedStyle e"
    using assms by (rule cache_ok_lookup)
  have t: "cache_ok ?t" using assms by (rule cache_ok_store)
  consider (A) "nodeKind (nodes d e) \<noteq> ElementNode"
    | (B) "nodeKind (nodes d e) = ElementNode"
          "hasAttribute d e ''hidden'' \<or> getAttribute d e ''aria-hidden'' = Some ''true''"
    | (C) "nodeKind (nodes d e) = ElementNode" "\<not> hasAttribute d e ''hidden''"
          "getAttribute d e ''aria-hidden'' \<noteq> Some ''true''"
    by blast
  then show ?thesis
  proof cases
    case A
    then show ?thesis using assms
      by (intro exI [of _ s]) (simp add: hiddenCause_def instanceofElement_def)
  next
    case B
    then show ?thesis using assms
      by (intro exI [of _ s]) (auto simp: hiddenCause_def instanceofElement_def)
  next
    case C
    then show ?thesis using t
      by (intro exI [of _ ?t]) (simp add: hiddenCause_def instanceofElement_def Let_def l)
  qed
qed

lemma hidden_found:
  "cache_ok s \<Longrightarrow> ancestorAt d k e = Some a \<Longrightarrow> hiddenCause d a \<Longrightarrow> k < n
   \<Longrightarrow> \<exists>s'. isElementHidden_loop n d (Some e) s = Some (True, s')"
proof (induction n arbitrary: k e s)
  case 0
  then show ?case by simp
next
  case (Suc n)
  from isElementHidden_loop_step [OF Suc.prems(1), of n d e] obtain t where
    t: "cache_ok t" and
    step: "isElementHidden_loop (Suc n) d (Some e) s
           = (if hiddenCause d e then Some (True, t) else isElementHidden_loop n d (parentElement (nodes d e)) t)"
    by blast
  show ?case
  proof (cases "hiddenCause d e")
    case True
    with step show ?thesis by simp
  next
    case False
    with Suc.prems(2,3) obtain k' where k: "k = Suc k'" by (cases k) auto
    with Suc.prems(2) obtain p where p: "parentElement (nodes d e) = Some p" and a: "ancestorAt d k' p = Some a"
      by (auto split: option.splits)
    from Suc.prems(4) k have "k' < n" by simp
    from Suc.IH [OF t a Suc.prems(3) this] step False p show ?thesis by simp
  qed
qed

lemma not_hidden_visible:
  "cache_ok s \<Longrightarrow> isElementHidden_loop n d (Some y) s = Some (False, s') \<Longrightarrow> ancestorAt d k y = Some a
   \<Longrightarrow> \<not> hiddenCause d a"
proof (induction n arbitrary: k y s)
  case 0
  then show ?case by simp
next
  case (Suc n)
  from isElementHidden_loop_step [OF Suc.prems(1), of n d y] obtain t where
    t: "cache_ok t" and
    step: "isElementHidden_loop (Suc n) d (Some y) s
           = (if hiddenCause d y then Some (True, t) else isElementHidden_loop n d (parentElement (nodes d y)) t)"
    by blast
  from step Suc.prems(2) have nh: "\<not> hiddenCause d y"
    and rest: "isElementHidden_loop n d (parentElement (nodes d y)) t = Some (False, s')"
    by (auto split: if_splits)
  show ?case
  proof (cases k)
    case 0
    with Suc.prems(3) nh show ?thesis by simp
  next
    case (Suc k')
    with Suc.prems(3) obtain p where p: "parentElement (nodes d y) = Some p" and a: "ancestorAt d k' p = Some a"
      by (auto split: option.splits)
    from rest p have "isElementHidden_loop n d (Some p) t = Some (False, s')" by simp
    from Suc.IH [OF t this a] show ?thesis .
  qed
qed

lemma ancestorAt_add:
  "ancestorAt d j x = Some e \<Longrightarrow> ancestorAt d k e = Some a \<Longrightarrow> ancestorAt d (j + k) x = Some a"
  by (induction j arbitrary: x) (auto split: option.splits)

lemma mapM_all:
  assumes "\<And>x t y t'. x \<in> set xs \<Longrightarrow> I t \<Longrightarrow> f x t = Some (y, t') \<Longrightarrow> I t' \<and> P y"
    and "I t" and "mapM f xs t = Some (ys, t')"
  shows "I t' \<and> (\<forall>y \<in> set ys. P y)"
  using assms
proof (induction xs arbitrary: t ys)
  case Nil
  then show ?case by simp
next
  case (Cons x xs)
  from Cons.prems(3) obtain y t1 ys' where fx: "f x t = Some (y, t1)" and rest: "mapM f xs t1 = Some (ys', t')"
    and ys: "ys = y # ys'"
    by (auto split: option.splits)
  from Cons.prems(1) [of x t y t1] Cons.prems(2) fx have 1: "I t1" "P y" by auto
  have step: "I u' \<and> P z" if "x' \<in> set xs" and "I u" and "f x' u = Some (z, u')" for x' u z u'
    using Cons.prems(1) [of x' u z u'] that by simp
  have "I t' \<and> (\<forall>y \<in> set ys'. P y)"
    by (rule Cons.IH [OF step 1(1) rest])
  with 1 ys show ?case by simp
qed

lemma isElementHidden_ok:
  "cache_ok s \<Longrightarrow> isElementHidden n d x s = Some (r, s') \<Longrightarrow> cache_ok s'"
  by (rule le_res_self_ok [OF isElementHidden_le [OF le_refl both_ok_refl]])

lemma yieldFirst_Some:
  "yieldFirst y r = Some (ys, t) \<longleftrightarrow> (\<exists>ys'. r = Some (ys', t) \<and> ys = y # ys')"
  by (auto simp: yieldFirst_def split: option.splits)

lemma yieldAll_Some:
  "yieldAll r = Some (ys, t) \<longleftrightarrow> (\<exists>yss. r = Some (yss, t) \<and> ys = concat yss)"
  by (auto simp: yieldAll_def split: option.splits)

lemma getElements_visible:
  "cache_ok s \<Longrightarrow> getElements n d x (v, s) = Some (ys, v', s') \<Longrightarrow> cache_ok s' \<and> (\<forall>y \<in> set ys. visible d y)"
proof (induction n arbitrary: x v s ys v' s')
  case 0
  then show ?case by simp
next
  case (Suc n)
  have R: "cache_ok s' \<and> (\<forall>y \<in> set ys. visible d y)"
    if "getElements n d x (v, s) = Some (ys, v', s')" and "cache_ok s" for x v s ys v' s'
    using Suc.IH [OF that(2) that(1)] .
  have M: "cache_ok s' \<and> (\<forall>y \<in> set (concat yss). visible d y)"
    if "mapM (getElements n d) xs (v, s) = Some (yss, v', s')" and "cache_ok s" for xs v s yss v' s'
  proof -
    have "cache_ok (snd (v', s')) \<and> (\<forall>zs \<in> set yss. \<forall>y \<in> set zs. visible d y)"
    proof (rule mapM_all [where I = "\<lambda>t. cache_ok (snd t)" and f = "getElements n d"
                            and P = "\<lambda>zs. \<forall>y \<in> set zs. visible d y", OF _ _ that(1)])
      show "cache_ok (snd (v, s))" using that(2) by simp
    next
      fix x t zs t'
      assume "x \<in> set xs" "cache_ok (snd t)" "getElements n d x t = Some (zs, t')"
      then show "cache_ok (snd t') \<and> (\<forall>y \<in> set zs. visible d y)"
        using R [of x "fst t" "snd t" zs "fst t'" "snd t'"] by simp
    qed
    then show ?thesis by auto
  qed
  show ?case
  proof (cases "x \<in> v")
    case True
    with Suc.prems show ?thesis by simp
  next
    case False
    show ?thesis
    proof (cases "instanceofElement d x")
      case el: True
      with False Suc.prems(2) obtain h s1 where h: "isElementHidden (Suc n) d x s = Some (h, s1)"
        by (auto simp: Let_def split: option.splits)
      have ok1: "cache_ok s1" using Suc.prems(1) h by (rule isElementHidden_ok)
      show ?thesis
      proof (cases h)
        case True
        with False el h Suc.prems(2) ok1 show ?thesis by (simp add: Let_def)
      next
        case nh: False
        from h nh have "isElementHidden_loop (Suc n) d (Some x) s = Some (False, s1)"
          by (simp only: isElementHidden_def)
        from not_hidden_visible [OF Suc.prems(1) this] have vx: "visible d x"
          by (simp add: visible_def)
        consider (slot) ys' where "mapM (getElements n d) (assignedElements (the (slot (nodes d x)))) (insert x v, s1)
                                    = Some (ys', v', s')" "ys = x # concat ys'"
          | (shadow) ys' where "getElements n d (the (shadowdomMap d x)) (insert x v, s1) = Some (ys', v', s')"
                               "ys = x # ys'"
          | (children) ys' where "mapM (getElements n d) (childNodes (nodes d x)) (insert x v, s1) = Some (ys', v', s')"
                               "ys = x # concat ys'"
          | (none) "ys = []" "s' = s1"
          using False el h nh Suc.prems(2)
          by (auto simp: Let_def yieldFirst_Some yieldAll_Some split: if_splits)
        then show ?thesis
        proof cases
          case slot
          from M [OF slot(1) ok1] slot(2) vx show ?thesis by simp
        next
          case shadow
          from R [OF shadow(1) ok1] shadow(2) vx show ?thesis by simp
        next
          case children
          from M [OF children(1) ok1] children(2) vx show ?thesis by simp
        next
          case none
          with ok1 show ?thesis by simp
        qed
      qed
    next
      case nel: False
      consider (children) ys' where "mapM (getElements n d) (childNodes (nodes d x)) (insert x v, s) = Some (ys', v', s')"
                               "ys = concat ys'"
        | (none) "ys = []" "s' = s"
        using False nel Suc.prems(2)
        by (auto simp: Let_def yieldAll_Some split: if_splits)
      then show ?thesis
      proof cases
        case children
        from M [OF children(1) Suc.prems(1)] children(2) show ?thesis by simp
      next
        case none
        with Suc.prems(1) show ?thesis by simp
      qed
    qed
  qed
qed

lemma queryAll_loop_subset:
  "queryAll_loop n d r nm ex xs s = Some (res, s') \<Longrightarrow> set res \<subseteq> set xs"
proof (induction xs arbitrary: s res)
  case Nil
  then show ?case by simp
next
  case (Cons x xs)
  from Cons.prems obtain er s1 where er: "computeElementRole n d x s = Some (er, s1)"
    by (auto split: option.splits)
  show ?case
  proof (cases "er \<noteq> Some r")
    case True
    with Cons.prems er have "queryAll_loop n d r nm ex xs s1 = Some (res, s')" by simp
    from Cons.IH [OF this] show ?thesis by auto
  next
    case False
    show ?thesis
    proof (cases "truthy_opt nm")
      case nm: True
      with False Cons.prems er obtain b s2 where m: "matchesNameFilter n d x nm ex s1 = Some (b, s2)"
        by (auto split: option.splits)
      show ?thesis
      proof (cases b)
        case True
        with False nm Cons.prems er m obtain res' where
          "queryAll_loop n d r nm ex xs s2 = Some (res', s')" and "res = x # res'"
          by (auto simp: yieldFirst_def split: option.splits)
        with Cons.IH [of s2 res'] show ?thesis by auto
      next
        case b: False
        with False nm Cons.prems er m have "queryAll_loop n d r nm ex xs s2 = Some (res, s')" by simp
        from Cons.IH [OF this] show ?thesis by auto
      qed
    next
      case nm: False
      with False Cons.prems er obtain res' where
        "queryAll_loop n d r nm ex xs s1 = Some (res', s')" and "res = x # res'"
        by (auto simp: yieldFirst_def split: option.splits)
      with Cons.IH [of s1 res'] show ?thesis by auto
    qed
  qed
qed

lemma query_loop_member:
  "query_loop n d r nm ex xs s = Some (Some e, s') \<Longrightarrow> e \<in> set xs"
proof (induction xs arbitrary: s)
  case Nil
  then show ?case by simp
next
  case (Cons x xs)
  from Cons.prems obtain er s1 where er: "computeElementRole n d x s = Some (er, s1)"
    by (auto split: option.splits)
  show ?case
  proof (cases "er \<noteq> Some r")
    case True
    with Cons.prems er have "query_loop n d r nm ex xs s1 = Some (Some e, s')" by simp
    from Cons.IH [OF this] show ?thesis by simp
  next
    case False
    show ?thesis
    proof (cases "truthy_opt nm")
      case nm: True
      with False Cons.prems er obtain b s2 where m: "matchesNameFilter n d x nm ex s1 = Some (b, s2)"
        by (auto split: option.splits)
      show ?thesis
      proof (cases b)
        case True
        with False nm Cons.prems er m show ?thesis by simp
      next
        case b: False
        with False nm Cons.prems er m have "query_loop n d r nm ex xs s2 = Some (Some e, s')" by simp
        from Cons.IH [OF this] show ?thesis by simp
      qed
    next
      case nm: False
      with False Cons.prems er show ?thesis by simp
    qed
  qed
qed

lemma queryAll_visible:
  assumes "cache_ok sc" and "queryAll n d root p sc = Some (res, sc')" and "x \<in> set res"
  shows "visible d x"
proof -
  from assms(2,3) obtain xs v s1 where g: "getElements n d root ({}, sc) = Some (xs, v, s1)"
    and l: "queryAll_loop n d (the (role p)) (name p) (exact p) xs s1 = Some (res, sc')"
    unfolding queryAll_def by (auto split: if_splits option.splits)
  from queryAll_loop_subset [OF l] assms(3) getElements_visible [OF assms(1) g] show ?thesis by auto
qed

lemma query_visible:
  assumes "cache_ok sc" and "query n d root p sc = Some (Some x, sc')"
  shows "visible d x"
proof -
  from assms(2) obtain xs v s1 where g: "getElements n d root ({}, sc) = Some (xs, v, s1)"
    and l: "query_loop n d (the (role p)) (name p) (exact p) xs s1 = Some (Some x, sc')"
    unfolding query_def by (auto split: if_splits option.splits)
  from query_loop_member [OF l] getElements_visible [OF assms(1) g] show ?thesis by auto
qed

section \<open>The child list of a shadow host\<close>

lemma withChildNodes_fields [simp]:
  "nodeKind (nodes (withChildNodes d host cs) x) = nodeKind (nodes d x)"
  "tagName (nodes (withChildNodes d host cs) x) = tagName (nodes d x)"
  "attrs (nodes (withChildNodes d host cs) x) = attrs (nodes d x)"
  "parentElement (nodes (withChildNodes d host cs) x) = parentElement (nodes d x)"
  "ownerDocument (nodes (withChildNodes d host cs) x) = ownerDocument (nodes d x)"
  "nodeValue (nodes (withChildNodes d host cs) x) = nodeValue (nodes d x)"
  "computedDisplay (nodes (withChildNodes d host cs) x) = computedDisplay (nodes d x)"
  "computedVisibility (nodes (withChildNodes d host cs) x) = computedVisibility (nodes d x)"
  "html (nodes (withChildNodes d host cs) x) = html (nodes d x)"
  "slot (nodes (withChildNodes d host cs) x) = slot (nodes d x)"
  "alt (nodes (withChildNodes d host cs) x) = alt (nodes d x)"
  "prop_type (nodes (withChildNodes d host cs) x) = prop_type (nodes d x)"
  "prop_value (nodes (withChildNodes d host cs) x) = prop_value (nodes d x)"
  "prop_id (nodes (withChildNodes d host cs) x) = prop_id (nodes d x)"
  "multiple (nodes (withChildNodes d host cs) x) = multiple (nodes d x)"
  "labels (nodes (withChildNodes d host cs) x) = labels (nodes d x)"
  by (simp_all add: withChildNodes_def)

lemma withChildNodes_tables [simp]:
  "getElementById (withChildNodes d host cs) = getElementById d"
  "querySelectorAllLabelFor (withChildNodes d host cs) = querySelectorAllLabelFor d"
  "internalsMap (withChildNodes d host cs) = internalsMap d"
  "shadowdomMap (withChildNodes d host cs) = shadowdomMap d"
  by (simp_all add: withChildNodes_def)

lemma withChildNodes_other:
  "x \<noteq> host \<Longrightarrow> childNodes (nodes (withChildNodes d host cs) x) = childNodes (nodes d x)"
  by (simp add: withChildNodes_def)

lemma withChildNodes_reads [simp]:
  "getAttribute (withChildNodes d host cs) = getAttribute d"
  "hasAttribute (withChildNodes d host cs) = hasAttribute d"
  "instanceofElement (withChildNodes d host cs) = instanceofElement d"
  "isElement (withChildNodes d host cs) = isElement d"
  "isSelectorRoot (withChildNodes d host cs) = isSelectorRoot d"
  "display (withChildNodes d host cs) = display d"
  "visibility (withChildNodes d host cs) = visibility d"
proof -
  show "display (withChildNodes d host cs) = display d"
  proof (intro ext)
    fix c show "display (withChildNodes d host cs) c = display d c" by (cases c) simp
  qed
  show "visibility (withChildNodes d host cs) = visibility d"
  proof (intro ext)
    fix c show "visibility (withChildNodes d host cs) c = visibility d c" by (cases c) simp
  qed
qed (simp_all add: fun_eq_iff getAttribute_def hasAttribute_def instanceofElement_def isElement_def isSelectorRoot_def)

lemma shadowHost_no_shadow:
  "shadowHost d host \<Longrightarrow> shadowdomMap d x = None \<Longrightarrow> childNodes (nodes (withChildNodes d host cs) x) = childNodes (nodes d x)"
  by (rule withChildNodes_other) (auto simp: shadowHost_def)

lemma shadowHost_root:
  "shadowHost d host \<Longrightarrow> shadowdomMap d x = Some r \<Longrightarrow> childNodes (nodes (withChildNodes d host cs) r) = childNodes (nodes d r)"
  by (rule withChildNodes_other) (auto simp: shadowHost_def ran_def)

lemma isElementHidden_loop_withChildNodes [simp]:
  "isElementHidden_loop n (withChildNodes d host cs) x s = isElementHidden_loop n d x s"
proof (induction n arbitrary: x s)
  case 0
  show ?case by simp
next
  case (Suc n)
  show ?case by (cases x) (simp_all add: Suc.IH Let_def)
qed

lemma isElementHidden_withChildNodes [simp]:
  "isElementHidden n (withChildNodes d host cs) = isElementHidden n d"
  by (simp add: fun_eq_iff isElementHidden_def)

lemma asText_withChildNodes:
  assumes "shadowHost d host"
  shows "asText n (withChildNodes d host cs) = asText n d"
proof (induction n)
  case 0
  show ?case by (simp add: fun_eq_iff)
next
  case (Suc n)
  show ?case
  proof (intro ext)
    fix x s
    show "asText (Suc n) (withChildNodes d host cs) x s = asText (Suc n) d x s"
      unfolding asText.simps
      by (simp add: Suc.IH shadowHost_no_shadow [OF assms] shadowHost_root [OF assms]
               cong: option.case_cong if_cong prod.case_cong)
  qed
qed

lemma labels_withChildNodes [simp]:
  "resolveIdRefs (withChildNodes d host cs) = resolveIdRefs d"
  "getLabelledByElementsByAttribute (withChildNodes d host cs) = getLabelledByElementsByAttribute d"
  "computeInputElementRole (withChildNodes d host cs) = computeInputElementRole d"
  by (simp_all add: fun_eq_iff resolveIdRefs_def getLabelledByElementsByAttribute_def computeInputElementRole_def
        cong: option.case_cong prod.case_cong if_cong)

lemma name_parts_withChildNodes:
  assumes "shadowHost d host"
  shows "associatedLabelText n (withChildNodes d host cs) = associatedLabelText n d"
    and "nameFromMarkup n (withChildNodes d host cs) = nameFromMarkup n d"
    and "nameFromContent n (withChildNodes d host cs) = nameFromContent n d"
proof -
  show a: "associatedLabelText n (withChildNodes d host cs) = associatedLabelText n d"
    by (simp add: fun_eq_iff associatedLabelText_def asText_withChildNodes [OF assms] cong: option.case_cong prod.case_cong if_cong)
  show "nameFromMarkup n (withChildNodes d host cs) = nameFromMarkup n d"
    by (simp add: fun_eq_iff nameFromMarkup_def a Let_def cong: option.case_cong prod.case_cong if_cong)
  show "nameFromContent n (withChildNodes d host cs) = nameFromContent n d"
    by (simp add: fun_eq_iff nameFromContent_def asText_withChildNodes [OF assms] cong: option.case_cong prod.case_cong if_cong)
qed

lemma role_name_withChildNodes:
  assumes "shadowHost d host"
  shows "computeElementRole n (withChildNodes d host cs) = computeElementRole n d
       \<and> computeAccessibleName n (withChildNodes d host cs) = computeAccessibleName n d"
proof (induction n)
  case 0
  show ?case by (simp add: fun_eq_iff)
next
  case (Suc n)
  then have IH: "computeElementRole n (withChildNodes d host cs) = computeElementRole n d"
    "computeAccessibleName n (withChildNodes d host cs) = computeAccessibleName n d"
    by simp_all
  have "computeElementRole (Suc n) (withChildNodes d host cs) x s = computeElementRole (Suc n) d x s" for x s
    unfolding computeElementRole.simps by (simp add: IH Let_def cong: option.case_cong prod.case_cong if_cong)
  moreover have "computeAccessibleName (Suc n) (withChildNodes d host cs) x opts s
                   = computeAccessibleName (Suc n) d x opts s" for x opts s
    unfolding computeAccessibleName.simps
    by (simp add: IH name_parts_withChildNodes [OF assms] Let_def cong: option.case_cong prod.case_cong if_cong)
  ultimately show ?case by (simp add: fun_eq_iff)
qed

lemma matchesNameFilter_withChildNodes:
  assumes "shadowHost d host"
  shows "matchesNameFilter n (withChildNodes d host cs) = matchesNameFilter n d"
  by (simp add: fun_eq_iff matchesNameFilter_def role_name_withChildNodes [OF assms] cong: option.case_cong prod.case_cong if_cong)

lemma getElements_withChildNodes:
  assumes "shadowHost d host"
  shows "getElements n (withChildNodes d host cs) = getElements n d"
proof (induction n)
  case 0
  show ?case by (simp add: fun_eq_iff)
next
  case (Suc n)
  show ?case
  proof (intro ext)
    fix x st
    obtain v s where st: "st = (v :: ref set, s :: style_cache)" by (cases st)
    show "getElements (Suc n) (withChildNodes d host cs) x st = getElements (Suc n) d x st"
    proof (cases "x = host")
      case True
      with assms have "instanceofElement d x" "shadowdomMap d x \<noteq> None"
        by (simp_all add: shadowHost_def instanceofElement_def)
      then show ?thesis
        unfolding st getElements.simps
        by (simp add: Suc.IH Let_def cong: option.case_cong if_cong prod.case_cong)
    next
      case False
      then show ?thesis
        unfolding st getElements.simps
        by (simp add: Suc.IH withChildNodes_other Let_def cong: option.case_cong prod.case_cong if_cong)
    qed
  qed
qed

lemma loops_withChildNodes:
  assumes "shadowHost d host"
  shows "query_loop n (withChildNodes d host cs) r nm ex xs s = query_loop n d r nm ex xs s"
    and "queryAll_loop n (withChildNodes d host cs) r nm ex xs s = queryAll_loop n d r nm ex xs s"
proof -
  show "query_loop n (withChildNodes d host cs) r nm ex xs s = query_loop n d r nm ex xs s"
    by (induction xs arbitrary: s)
       (simp_all add: role_name_withChildNodes [OF assms] matchesNameFilter_withChildNodes [OF assms]
          cong: option.case_cong if_cong prod.case_cong)
  show "queryAll_loop n (withChildNodes d host cs) r nm ex xs s = queryAll_loop n d r nm ex xs s"
    by (induction xs arbitrary: s)
       (simp_all add: role_name_withChildNodes [OF assms] matchesNameFilter_withChildNodes [OF assms]
          cong: option.case_cong if_cong prod.case_cong)
qed

lemma query_withChildNodes:
  assumes "shadowHost d host"
  shows "query n (withChildNodes d host cs) = query n d" and "queryAll n (withChildNodes d host cs) = queryAll n d"
  by (simp_all add: fun_eq_iff query_def queryAll_def getElements_withChildNodes [OF assms]
        loops_withChildNodes [OF assms] cong: option.case_cong prod.case_cong if_cong)

section \<open>Termination of the name computation\<close>

lemma mapM_total:
  assumes "\<And>x t. x \<in> set xs \<Longrightarrow> I t \<Longrightarrow> \<exists>y t'. f x t = Some (y, t') \<and> I t'" and "I t"
  shows "\<exists>ys t'. mapM f xs t = Some (ys, t') \<and> I t'"
  using assms
proof (induction xs arbitrary: t)
  case Nil
  then show ?case by simp
next
  case (Cons x xs)
  from Cons.prems(1) [of x t] Cons.prems(2) obtain y t1 where fx: "f x t = Some (y, t1)" and 1: "I t1"
    by auto
  have "\<exists>ys t'. mapM f xs t1 = Some (ys, t') \<and> I t'"
    by (rule Cons.IH [OF _ 1]) (rule Cons.prems(1), simp_all)
  with fx show ?case by auto
qed

lemma treeShaped_parent:
  "treeShaped d depth H \<Longrightarrow> parentElement (nodes d x) = Some p \<Longrightarrow> depth p < depth x"
  by (simp add: treeShaped_def)

lemma treeShaped_content:
  "treeShaped d depth H \<Longrightarrow> c \<in> content d x \<Longrightarrow> depth x < depth c"
  by (auto simp: treeShaped_def)

lemma treeShaped_bound: "treeShaped d depth H \<Longrightarrow> depth x \<le> H"
  by (simp add: treeShaped_def)

lemma isElementHidden_loop_total:
  assumes "treeShaped d depth H"
  shows "(case xo of None \<Rightarrow> 0 | Some x \<Rightarrow> Suc (depth x)) < n \<Longrightarrow> \<exists>r. isElementHidden_loop n d xo s = Some r"
proof (induction n arbitrary: xo s)
  case 0
  then show ?case by simp
next
  case (Suc n)
  show ?case
  proof (cases xo)
    case None
    then show ?thesis by auto
  next
    case (Some x)
    have "(case parentElement (nodes d x) of None \<Rightarrow> 0 | Some x \<Rightarrow> Suc (depth x)) < n"
      using Suc.prems Some treeShaped_parent [OF assms, of x]
      by (auto split: option.splits)
    then have rec: "\<exists>r. isElementHidden_loop n d (parentElement (nodes d x)) s' = Some r" for s'
      by (rule Suc.IH)
    show ?thesis
      unfolding Some isElementHidden_loop.simps Let_def
      using rec by auto
  qed
qed

lemma isElementHidden_total:
  assumes "treeShaped d depth H" and "H + 2 \<le> n"
  shows "\<exists>r. isElementHidden n d x s = Some r"
  unfolding isElementHidden_def
  using treeShaped_bound [OF assms(1), of x] assms(2)
  by (intro isElementHidden_loop_total [OF assms(1)]) simp

lemma asText_total:
  assumes "treeShaped d depth H"
  shows "2 * H + 2 \<le> n + depth x \<Longrightarrow> \<exists>r. asText n d x s = Some r"
proof (induction n arbitrary: x s)
  case 0
  with treeShaped_bound [OF assms, of x] show ?case by simp
next
  case (Suc n)
  have "H + 2 \<le> Suc n" using Suc.prems treeShaped_bound [OF assms, of x] by simp
  from isElementHidden_total [OF assms this] obtain h s1 where
    hid: "isElementHidden (Suc n) d x s = Some (h, s1)" by (metis surj_pair)
  have M: "\<exists>r. normalized (mapM (asText n d) xs t) = Some r" if "set xs \<subseteq> content d x" for xs t
  proof -
    have "\<exists>ys t'. mapM (asText n d) xs t = Some (ys, t') \<and> True"
    proof (rule mapM_total [where I = "\<lambda>t. True"])
      fix c t assume "c \<in> set xs"
      with that have "c \<in> content d x" by auto
      from treeShaped_content [OF assms this] Suc.prems have "2 * H + 2 \<le> n + depth c" by simp
      from Suc.IH [OF this, of t] show "\<exists>y t'. asText n d c t = Some (y, t') \<and> True" by auto
    qed simp
    then show ?thesis by (auto simp: normalized_def)
  qed
  have a: "set (assignedNodes sl) \<subseteq> content d x" if "slot (nodes d x) = Some sl" for sl
    using that by (simp add: content_def)
  have b: "set (childNodes (nodes d r)) \<subseteq> content d x" if "shadowdomMap d x = Some r" for r
    using that by (simp add: content_def)
  have c: "set (childNodes (nodes d x)) \<subseteq> content d x" if "shadowdomMap d x = None"
    using that by (simp add: content_def)
  show ?case
    unfolding asText.simps
    using hid M [OF a] M [OF b] M [OF c]
    by (auto split: option.splits)
qed

lemma asText_total':
  assumes "treeShaped d depth H" and "2 * H + 2 \<le> n"
  shows "\<exists>r. asText n d x s = Some r"
  using assms(2) by (intro asText_total [OF assms(1)]) simp

lemma asText_list_total:
  assumes "treeShaped d depth H" and "2 * H + 2 \<le> n"
  shows "\<exists>r. normalized (mapM (asText n d) xs s) = Some r"
proof -
  have "\<exists>ys t'. mapM (asText n d) xs s = Some (ys, t') \<and> True"
    by (rule mapM_total [where I = "\<lambda>t. True"]) (use asText_total' [OF assms] in auto)
  then show ?thesis by (auto simp: normalized_def)
qed

lemma associatedLabelText_total:
  assumes "treeShaped d depth H" and "2 * H + 2 \<le> n"
  shows "\<exists>r. associatedLabelText n d x s = Some r"
proof (cases "ownerDocument (nodes d x)")
  case None
  then show ?thesis by (simp add: associatedLabelText_def)
next
  case (Some doc)
  obtain t1 s1 where 1: "(if truthy (prop_id (nodes d x))
                 then normalized (mapM (asText n d) (querySelectorAllLabelFor d doc (prop_id (nodes d x))) s)
                 else Some ([], s)) = Some (t1, s1)"
    using asText_list_total [OF assms, of "querySelectorAllLabelFor d doc (prop_id (nodes d x))" s]
    by (cases "truthy (prop_id (nodes d x))") auto
  show ?thesis
  proof (cases "labels (nodes d x)")
    case None
    with Some 1 show ?thesis by (simp add: associatedLabelText_def)
  next
    case (Some ls)
    from asText_list_total [OF assms, of ls s1] obtain t2 s2 where
      "normalized (mapM (asText n d) ls s1) = Some (t2, s2)" by (metis surj_pair)
    with \<open>ownerDocument (nodes d x) = Some doc\<close> Some 1 show ?thesis
      by (simp add: associatedLabelText_def)
  qed
qed

lemma nameFromMarkup_total:
  assumes "treeShaped d depth H" and "2 * H + 2 \<le> n"
  shows "\<exists>r. nameFromMarkup n d x s = Some r"
proof -
  from associatedLabelText_total [OF assms, of x s] obtain a s2 where
    "associatedLabelText n d x s = Some (a, s2)" by (metis surj_pair)
  then show ?thesis by (simp add: nameFromMarkup_def Let_def)
qed

lemma nameFromContent_total:
  assumes "treeShaped d depth H" and "2 * H + 2 \<le> n"
  shows "\<exists>res. nameFromContent n d x a r s = Some res"
proof -
  from asText_total' [OF assms, of x s] obtain t1 s1 where 1: "asText n d x s = Some (t1, s1)"
    by (metis surj_pair)
  from asText_total' [OF assms, of x s1] obtain t2 s2 where 2: "asText n d x s1 = Some (t2, s2)"
    by (metis surj_pair)
  from 1 2 show ?thesis by (simp add: nameFromContent_def)
qed

lemma card_Diff_insert_less:
  assumes "finite U" and "el \<in> U" and "el \<notin> v0" and "insert el v0 \<subseteq> v"
  shows "card (U - v) < card (U - v0)"
proof -
  have "U - v \<subset> U - v0" using assms by auto
  then show ?thesis using assms(1) by (intro psubset_card_mono) auto
qed

lemma role_name_total:
  assumes ts: "treeShaped d depth H" and fin: "finite U"
    and closed: "\<And>x. x \<in> U \<Longrightarrow> set (labelledByElements d x) \<subseteq> U"
  shows "(2 * H + card U + 3 \<le> n \<longrightarrow> (\<forall>el s. el \<in> U \<longrightarrow> (\<exists>r. computeElementRole n d el s = Some r)))
       \<and> (\<forall>el opts s. el \<in> U
             \<longrightarrow> 2 * H + 2 + card (U - visitedOf opts) + (if knownRole opts = None then card U + 2 else 0) \<le> n
             \<longrightarrow> (\<exists>t c v' s'. computeAccessibleName n d el opts s = Some ((t, c, v'), s') \<and> visitedOf opts \<subseteq> v'))"
proof (induction n)
  case 0
  show ?case by simp
next
  case (Suc n)
  have IHr: "\<exists>r. computeElementRole n d el s = Some r" if "2 * H + card U + 3 \<le> n" and "el \<in> U" for el s
    using Suc.IH that by blast
  have IHn: "\<exists>t c v' s'. computeAccessibleName n d el opts s = Some ((t, c, v'), s') \<and> visitedOf opts \<subseteq> v'"
    if "el \<in> U"
      and "2 * H + 2 + card (U - visitedOf opts) + (if knownRole opts = None then card U + 2 else 0) \<le> n"
    for el opts s
    using Suc.IH that by blast
  have role: "\<exists>r. computeElementRole (Suc n) d el s = Some r"
    if b: "2 * H + card U + 3 \<le> Suc n" and el: "el \<in> U" for el s
  proof -
    let ?o = "\<lparr>knownRole = Some ''region'', cache = None, visited = None, allowNameFromContent = Some False\<rparr>"
    have "2 * H + 2 + card (U - visitedOf ?o) + (if knownRole ?o = None then card U + 2 else 0) \<le> n"
      using b by (simp add: visitedOf_def)
    from IHn [OF el this, of s] obtain t c v s1 where
      "computeAccessibleName n d el ?o s = Some ((t, c, v), s1)" by blast
    then show ?thesis
      unfolding computeElementRole.simps Let_def by (auto split: option.splits)
  qed
  have name: "\<exists>t c v' s'. computeAccessibleName (Suc n) d el opts s = Some ((t, c, v'), s') \<and> visitedOf opts \<subseteq> v'"
    if el: "el \<in> U"
      and b: "2 * H + 2 + card (U - visitedOf opts) + (if knownRole opts = None then card U + 2 else 0) \<le> Suc n"
    for el opts s
  proof -
    let ?c0 = "case cache opts of Some c \<Rightarrow> c | None \<Rightarrow> Map.empty"
    let ?v0 = "case visited opts of Some v \<Rightarrow> v | None \<Rightarrow> {}"
    let ?refs = "case Option.bind (internalsMap d el) ariaLabelledByElements of
                   Some refs \<Rightarrow> refs | None \<Rightarrow> getLabelledByElementsByAttribute d el"
    let ?f = "\<lambda>ref (c, v, s). case computeAccessibleName n d ref
                  (opts\<lparr>cache := Some c, visited := Some v, allowNameFromContent := Some True\<rparr>) s of
                None \<Rightarrow> None | Some ((t, c', v'), s') \<Rightarrow> Some (t, (c', v', s'))"
    have v0: "visitedOf opts = ?v0" by (simp add: visitedOf_def)
    have refs: "set ?refs \<subseteq> U" using closed [OF el] by (simp add: labelledByElements_def)
    have T: "2 * H + 2 \<le> Suc n" using b by simp
    show ?thesis
    proof (cases "?c0 el \<noteq> None \<or> el \<in> ?v0")
      case True
      then show ?thesis
        unfolding computeAccessibleName.simps Let_def v0 by auto
    next
      case False
      have step: "\<exists>ys t'. mapM ?f ?refs (?c0, insert el ?v0, s) = Some (ys, t') \<and> insert el ?v0 \<subseteq> fst (snd t')"
      proof (rule mapM_total [where I = "\<lambda>t. insert el ?v0 \<subseteq> fst (snd t)"])
        show "insert el ?v0 \<subseteq> fst (snd (?c0, insert el ?v0, s))" by simp
      next
        fix x and t :: name_state
        assume x: "x \<in> set ?refs" and I: "insert el ?v0 \<subseteq> fst (snd t)"
        obtain c v s' where t: "t = (c, v, s')" by (cases t) auto
        let ?o = "opts\<lparr>cache := Some c, visited := Some v, allowNameFromContent := Some True\<rparr>"
        have xU: "x \<in> U" using x refs by auto
        have "card (U - v) < card (U - ?v0)"
          using False I t by (intro card_Diff_insert_less [OF fin el]) auto
        then have "2 * H + 2 + card (U - visitedOf ?o) + (if knownRole ?o = None then card U + 2 else 0) \<le> n"
          using b by (simp add: visitedOf_def)
        from IHn [OF xU this, of s'] obtain t1 c1 v1' s1 where
          r: "computeAccessibleName n d x ?o s' = Some ((t1, c1, v1'), s1)" and "visitedOf ?o \<subseteq> v1'"
          by blast
        then show "\<exists>y t'. ?f x t = Some (y, t') \<and> insert el ?v0 \<subseteq> fst (snd t')"
          using I t by (auto simp: visitedOf_def)
      qed
      then obtain ys c1 v2 s1 where m: "mapM ?f ?refs (?c0, insert el ?v0, s) = Some (ys, (c1, v2, s1))"
        and v2: "insert el ?v0 \<subseteq> v2"
        by (metis fst_conv snd_conv surj_pair)
      have e1: "(if ?refs \<noteq> [] then normalized (mapM ?f ?refs (?c0, insert el ?v0, s))
                 else Some ([], (?c0, insert el ?v0, s))) = Some (normalize ys, (c1, v2, s1))"
        using m by (cases "?refs") (auto simp: normalized_def normalize_def)
      from nameFromMarkup_total [OF ts T, of el s1] obtain mk s2 where
        e2: "nameFromMarkup (Suc n) d el s1 = Some (mk, s2)" by (metis surj_pair)
      have "\<exists>r. (case knownRole opts of Some r \<Rightarrow> Some (Some r, s2) | None \<Rightarrow> computeElementRole n d el s2) = Some r"
      proof (cases "knownRole opts")
        case None
        with b have "2 * H + card U + 3 \<le> n" by simp
        from IHr [OF this el, of s2] None show ?thesis by simp
      next
        case (Some r)
        then show ?thesis by simp
      qed
      then obtain rl s3 where
        e3: "(case knownRole opts of Some r \<Rightarrow> Some (Some r, s2) | None \<Rightarrow> computeElementRole n d el s2) = Some (rl, s3)"
        by (metis surj_pair)
      from nameFromContent_total [OF ts T, of el "allowNameFromContent opts" rl s3] obtain t2 s4 where
        e4: "nameFromContent (Suc n) d el (allowNameFromContent opts) rl s3 = Some (t2, s4)" by (metis surj_pair)
      have sub: "?v0 \<subseteq> v2" using v2 by auto
      from False have F: "?c0 el = None" "el \<notin> ?v0" by auto
      show ?thesis
        unfolding computeAccessibleName.simps Let_def v0
        apply (simp only: F e1 if_False not_None_eq not_Some_eq option.simps prod.case simp_thms)
        apply (cases "truthy (normalize ys)")
         apply (simp add: cacheAndReturn_def sub)
        apply (simp only: if_False e2 option.simps prod.case)
        apply (cases mk)
         apply (simp only: option.simps e3 prod.case e4)
         apply (simp add: cacheAndReturn_def sub)
        apply (simp add: cacheAndReturn_def sub)
        done
    qed
  qed
  from role name show ?case by blast
qed

lemma cycleDoc_refs:
  "labelledByElements cycleDoc x = (if x = 1 then [2] else if x = 2 then [1] else [])"
proof -
  have 1: "labelledByElements cycleDoc 1 = [2]" by code_simp
  have 2: "labelledByElements cycleDoc 2 = [1]" by code_simp
  have 3: "labelledByElements cycleDoc x = []" if "x \<noteq> 1" and "x \<noteq> 2"
    using that
    by (simp add: labelledByElements_def getLabelledByElementsByAttribute_def getAttribute_def cycleDoc_def
          mkDom_def htmlElement_def textNode_def documentNode_def blankNode_def)
  from 1 2 3 show ?thesis by auto
qed

section \<open>Termination of the queries\<close>

lemma mapM_total_all:
  assumes "\<And>x t. x \<in> set xs \<Longrightarrow> I t \<Longrightarrow> \<exists>y t'. f x t = Some (y, t') \<and> I t' \<and> P y" and "I t"
  shows "\<exists>ys t'. mapM f xs t = Some (ys, t') \<and> I t' \<and> (\<forall>y \<in> set ys. P y)"
  using assms
proof (induction xs arbitrary: t)
  case Nil
  then show ?case by simp
next
  case (Cons x xs)
  from Cons.prems(1) [of x t] Cons.prems(2) obtain y t1 where fx: "f x t = Some (y, t1)" and 1: "I t1" "P y"
    by auto
  have "\<exists>ys t'. mapM f xs t1 = Some (ys, t') \<and> I t' \<and> (\<forall>y \<in> set ys. P y)"
    by (rule Cons.IH [OF _ 1(1)]) (rule Cons.prems(1), simp_all)
  with fx 1 show ?case by auto
qed

lemma getElements_total:
  assumes ts: "treeShaped d depth H" and fin: "finite N" and closed: "closedNodes d N"
  shows "x \<in> N \<Longrightarrow> H + 2 + card (N - v) \<le> n
         \<Longrightarrow> \<exists>ys v' s'. getElements n d x (v, s) = Some (ys, v', s') \<and> v \<subseteq> v' \<and> set ys \<subseteq> N"
proof (induction n arbitrary: x v s)
  case 0
  then show ?case by simp
next
  case (Suc n)
  show ?case
  proof (cases "x \<in> v")
    case True
    then show ?thesis by simp
  next
    case False
    let ?v1 = "insert x v"
    have less: "card (N - ?v1) < card (N - v)"
      using False by (intro card_Diff_insert_less [OF fin Suc.prems(1)]) auto
    have succ: "successors d x \<subseteq> N" using closed Suc.prems(1) by (auto simp: closedNodes_def)
    have R: "\<exists>ys v' s'. getElements n d y (w, t) = Some (ys, v', s') \<and> w \<subseteq> v' \<and> set ys \<subseteq> N"
      if "y \<in> N" and "?v1 \<subseteq> w" for y w t
    proof -
      have "card (N - w) \<le> card (N - ?v1)" using that(2) fin by (intro card_mono) auto
      with less Suc.prems(2) have "H + 2 + card (N - w) \<le> n" by simp
      from Suc.IH [OF that(1) this] show ?thesis .
    qed
    have M: "\<exists>yss v' s'. mapM (getElements n d) xs (?v1, t) = Some (yss, v', s') \<and> ?v1 \<subseteq> v'
               \<and> set (concat yss) \<subseteq> N"
      if xs: "set xs \<subseteq> N" for xs t
    proof -
      have "\<exists>yss t'. mapM (getElements n d) xs (?v1, t) = Some (yss, t') \<and> ?v1 \<subseteq> fst t'
              \<and> (\<forall>ys \<in> set yss. set ys \<subseteq> N)"
      proof (rule mapM_total_all [where I = "\<lambda>t. ?v1 \<subseteq> fst t" and P = "\<lambda>ys. set ys \<subseteq> N"])
        show "?v1 \<subseteq> fst (?v1, t)" by simp
      next
        fix y and u :: "ref set \<times> style_cache"
        assume y: "y \<in> set xs" and I: "?v1 \<subseteq> fst u"
        obtain w t where u: "u = (w, t)" by (cases u)
        from y xs have "y \<in> N" by auto
        from R [OF this, of w t] I u
        show "\<exists>ys t'. getElements n d y u = Some (ys, t') \<and> ?v1 \<subseteq> fst t' \<and> set ys \<subseteq> N"
          by auto
      qed
      then obtain yss v' s' where m: "mapM (getElements n d) xs (?v1, t) = Some (yss, v', s')"
        and sub: "?v1 \<subseteq> v'" and all: "\<forall>ys \<in> set yss. set ys \<subseteq> N"
        by auto
      from all have "set (concat yss) \<subseteq> N" by auto
      with m sub show ?thesis by blast
    qed
    have a: "set (assignedElements sl) \<subseteq> N" if "slot (nodes d x) = Some sl" for sl
      using that succ by (auto simp: successors_def)
    have b: "r \<in> N" if "shadowdomMap d x = Some r" for r
      using that succ by (auto simp: successors_def)
    have c: "set (childNodes (nodes d x)) \<subseteq> N"
      using succ by (auto simp: successors_def)
    have "H + 2 \<le> Suc n" using Suc.prems(2) by simp
    from isElementHidden_total [OF ts this, of x s] obtain h s1 where
      hid: "isElementHidden (Suc n) d x s = Some (h, s1)" by (metis surj_pair)
    obtain ys0 v0 s0 where
      e0: "(if instanceofElement d x then isElementHidden (Suc n) d x s else Some (False, s)) = Some (ys0, s0)"
      using hid by (cases "instanceofElement d x") auto
    consider (slot) sl where "instanceofElement d x" "\<not> ys0" "slot (nodes d x) = Some sl" "assignedElements sl \<noteq> []"
      | (shadow) r where "instanceofElement d x" "\<not> ys0"
          "\<not> (case slot (nodes d x) of Some s \<Rightarrow> assignedElements s \<noteq> [] | None \<Rightarrow> False)"
          "shadowdomMap d x = Some r"
      | (children) "\<not> (instanceofElement d x \<and> \<not> ys0
              \<and> (case slot (nodes d x) of Some s \<Rightarrow> assignedElements s \<noteq> [] | None \<Rightarrow> False))"
          "\<not> (instanceofElement d x \<and> \<not> ys0 \<and> shadowdomMap d x \<noteq> None)"
          "isSelectorRoot d x \<and> (\<not> instanceofElement d x \<or> \<not> ys0)"
      | (none) "\<not> (instanceofElement d x \<and> \<not> ys0
              \<and> (case slot (nodes d x) of Some s \<Rightarrow> assignedElements s \<noteq> [] | None \<Rightarrow> False))"
          "\<not> (instanceofElement d x \<and> \<not> ys0 \<and> shadowdomMap d x \<noteq> None)"
          "\<not> (isSelectorRoot d x \<and> (\<not> instanceofElement d x \<or> \<not> ys0))"
      by (cases "slot (nodes d x)"; cases "shadowdomMap d x") auto
    then show ?thesis
    proof cases
      case slot
      from M [OF a [OF slot(3)], of s0] obtain yss v' s' where
        "mapM (getElements n d) (assignedElements sl) (?v1, s0) = Some (yss, v', s')" "?v1 \<subseteq> v'"
        "set (concat yss) \<subseteq> N" by blast
      with False e0 slot Suc.prems(1) show ?thesis
        by (auto simp: Let_def yieldFirst_def yieldAll_def)
    next
      case shadow
      from R [OF b [OF shadow(4)], of ?v1 s0] obtain ys v' s' where
        "getElements n d r (?v1, s0) = Some (ys, v', s')" "?v1 \<subseteq> v'" "set ys \<subseteq> N" by blast
      with False e0 shadow Suc.prems(1) show ?thesis
        by (auto simp: Let_def yieldFirst_def)
    next
      case children
      from M [OF c, of s0] obtain yss v' s' where
        "mapM (getElements n d) (childNodes (nodes d x)) (?v1, s0) = Some (yss, v', s')" "?v1 \<subseteq> v'"
        "set (concat yss) \<subseteq> N" by blast
      with False e0 children Suc.prems(1) show ?thesis
        by (auto simp: Let_def yieldFirst_def yieldAll_def)
    next
      case none
      with False e0 show ?thesis
        by (auto simp: Let_def)
    qed
  qed
qed

lemma role_total_closed:
  assumes "treeShaped d depth H" and "finite N" and "closedNodes d N" and "e \<in> N"
    and "2 * H + 2 * card N + 4 \<le> n"
  shows "\<exists>r. computeElementRole n d e s = Some r"
    and "\<exists>r. matchesNameFilter n d e nm ex s = Some r"
proof -
  have closed: "\<And>x. x \<in> N \<Longrightarrow> set (labelledByElements d x) \<subseteq> N"
    using assms(3) by (simp add: closedNodes_def)
  note total = role_name_total [OF assms(1,2) closed, of n]
  have "2 * H + card N + 3 \<le> n" using assms(5) by simp
  with total assms(4) show role: "\<exists>r. computeElementRole n d e s = Some r" for s by blast
  show "\<exists>r. matchesNameFilter n d e nm ex s = Some r"
  proof (cases "truthy_opt nm")
    case False
    then show ?thesis by (auto simp: matchesNameFilter_def)
  next
    case True
    from role [of s] obtain r s1 where r: "computeElementRole n d e s = Some (r, s1)" by (metis surj_pair)
    let ?o = "\<lparr>knownRole = r, cache = None, visited = None, allowNameFromContent = None\<rparr>"
    have "visitedOf ?o = {}" by (simp add: visitedOf_def)
    then have "2 * H + 2 + card (N - visitedOf ?o) + (if knownRole ?o = None then card N + 2 else 0) \<le> n"
      using assms(5) by simp
    with total assms(4) obtain t c v s2 where
      "computeAccessibleName n d e ?o s1 = Some ((t, c, v), s2)" by blast
    with True r show ?thesis by (auto simp: matchesNameFilter_def)
  qed
qed

lemma loops_total:
  assumes "treeShaped d depth H" and "finite N" and "closedNodes d N" and "2 * H + 2 * card N + 4 \<le> n"
  shows "set xs \<subseteq> N \<Longrightarrow> \<exists>res. query_loop n d r nm ex xs s = Some res"
    and "set xs \<subseteq> N \<Longrightarrow> \<exists>res. queryAll_loop n d r nm ex xs s = Some res"
proof -
  show "set xs \<subseteq> N \<Longrightarrow> \<exists>res. query_loop n d r nm ex xs s = Some res"
  proof (induction xs arbitrary: s)
    case Nil
    show ?case by simp
  next
    case (Cons x xs)
    then have x: "x \<in> N" and xs: "set xs \<subseteq> N" by auto
    from role_total_closed(1) [OF assms(1-3) x assms(4), of s] obtain er s1 where
      er: "computeElementRole n d x s = Some (er, s1)" by (metis surj_pair)
    from role_total_closed(2) [OF assms(1-3) x assms(4), of nm ex s1] obtain m s2 where
      m: "matchesNameFilter n d x nm ex s1 = Some (m, s2)" by (metis surj_pair)
    from Cons.IH [OF xs, of s1] Cons.IH [OF xs, of s2] er m show ?case by auto
  qed
  show "set xs \<subseteq> N \<Longrightarrow> \<exists>res. queryAll_loop n d r nm ex xs s = Some res"
  proof (induction xs arbitrary: s)
    case Nil
    show ?case by simp
  next
    case (Cons x xs)
    then have x: "x \<in> N" and xs: "set xs \<subseteq> N" by auto
    from role_total_closed(1) [OF assms(1-3) x assms(4), of s] obtain er s1 where
      er: "computeElementRole n d x s = Some (er, s1)" by (metis surj_pair)
    from role_total_closed(2) [OF assms(1-3) x assms(4), of nm ex s1] obtain m s2 where
      m: "matchesNameFilter n d x nm ex s1 = Some (m, s2)" by (metis surj_pair)
    from Cons.IH [OF xs, of s1] Cons.IH [OF xs, of s2] er m show ?case
      by (auto simp: yieldFirst_def)
  qed
qed

text \<open>
  On a tree-shaped document, from a root in a finite closed set \<open>N\<close> of nodes, both
  queries return with any fuel from \<open>2 * H + 2 * card N + 4\<close> on: running out of fuel is
  not a way in which they fail.
\<close>

lemma query_total:
  assumes "treeShaped d depth H" and "finite N" and "closedNodes d N" and "root \<in> N"
    and "2 * H + 2 * card N + 4 \<le> n"
  shows "(\<exists>r. query n d root p sc = Some r) \<and> (\<exists>r. queryAll n d root p sc = Some r)"
proof -
  have "card (N - {}) \<le> card N" by simp
  then have "H + 2 + card (N - {}) \<le> n" using assms(5) by simp
  from getElements_total [OF assms(1-4) this, of sc] obtain ys v' s' where
    g: "getElements n d root ({}, sc) = Some (ys, v', s')" and ys: "set ys \<subseteq> N" by blast
  from loops_total [OF assms(1-3,5) ys] g show ?thesis
    by (simp add: query_def queryAll_def)
qed

lemma query_terminates:
  assumes "treeShaped d depth H" and "finite N" and "closedNodes d N" and "root \<in> N" and "cache_ok sc"
  shows "(\<exists>r. \<forall>n \<ge> 2 * H + 2 * card N + 4. \<exists>sc'. query n d root p sc = Some (r, sc'))
       \<and> (\<exists>r. \<forall>n \<ge> 2 * H + 2 * card N + 4. \<exists>sc'. queryAll n d root p sc = Some (r, sc'))"
proof -
  let ?N = "2 * H + 2 * card N + 4"
  have ok: "both_ok sc sc" using assms(5) by (simp add: both_ok_def)
  from query_total [OF assms(1-4) le_refl, of p sc] obtain r s1 rs s2 where
    q: "query ?N d root p sc = Some (r, s1)" and qa: "queryAll ?N d root p sc = Some (rs, s2)"
    by (metis surj_pair)
  have "\<exists>sc'. query n d root p sc = Some (r, sc')" if "?N \<le> n" for n
    using query_le [OF that ok, of d root p] q by auto
  moreover have "\<exists>sc'. queryAll n d root p sc = Some (rs, sc')" if "?N \<le> n" for n
    using queryAll_le [OF that ok, of d root p] qa by auto
  ultimately show ?thesis by blast
qed

section \<open>Payloads of the declared type\<close>

text \<open>
  On the value of JSON that holds a payload of the declared type, the methods never
  throw and return what \<open>query\<close> and \<open>queryAll\<close> return on that payload, so every
  property of these two is a property of the methods on such selectors.
\<close>

lemma property_payloadOf:
  "property (payloadOf p) ''role'' = map_option JString (role p)"
  "property (payloadOf p) ''name'' = map_option JString (name p)"
  "property (payloadOf p) ''exact'' = map_option JBoolean (exact p)"
  by (cases "role p"; cases "name p"; cases "description p"; cases "exact p";
      simp add: payloadOf_def List.map_filter_def)+

lemma destructure_payloadOf:
  "destructure (payloadOf p)
     = Inr (map_option JString (role p), map_option JString (name p), map_option JBoolean (exact p))"
  using property_payloadOf [of p] by (simp add: destructure_def payloadOf_def)

lemma truthy_value_string: "truthy_value (map_option JString v) = truthy_opt v"
  by (cases v) (simp_all add: truthy_value_def truthy_opt_def)

lemma truthy_value_boolean: "truthy_value (map_option JBoolean v) = (v = Some True)"
  by (cases v) (auto simp: truthy_value_def)

lemma strictEquals_string: "strictEquals a (Some (JString r)) = (a = Some r)"
  by (cases a) (auto simp: strictEquals_def)

lemma matchesNameFilter_value_typed:
  "matchesNameFilter_value n d element (map_option JString nm) (map_option JBoolean ex) sc
     = map_option (apfst Inr) (matchesNameFilter n d element nm ex sc)"
  by (cases nm)
     (auto simp: matchesNameFilter_value_def matchesNameFilter_def truthy_value_def
        truthy_value_boolean [unfolded truthy_value_def] strictEquals_string truthy_opt_def
        split: option.splits prod.splits)

lemma query_loop_value_typed:
  "query_loop_value n d (Some (JString r)) (map_option JString nm) (map_option JBoolean ex) elements sc
     = map_option (apfst Inr) (query_loop n d r nm ex elements sc)"
proof (induction elements arbitrary: sc)
  case Nil
  show ?case by simp
next
  case (Cons element elements)
  show ?case
    by (auto simp: Cons.IH matchesNameFilter_value_typed truthy_value_string strictEquals_string
          split: option.splits prod.splits sum.splits)
qed

lemma push_typed: "push y (map_option (apfst Inr) r) = map_option (apfst Inr) (yieldFirst y r)"
  by (auto simp: push_def yieldFirst_def split: option.splits)

lemma queryAll_loop_value_typed:
  "queryAll_loop_value n d (Some (JString r)) (map_option JString nm) (map_option JBoolean ex) elements sc
     = map_option (apfst Inr) (queryAll_loop n d r nm ex elements sc)"
proof (induction elements arbitrary: sc)
  case Nil
  show ?case by simp
next
  case (Cons element elements)
  show ?case
    by (auto simp: Cons.IH matchesNameFilter_value_typed truthy_value_string strictEquals_string
          push_typed
          split: option.splits prod.splits sum.splits)
qed

lemma SelectorEngine_query_typed:
  "SelectorEngine_query n d root (Some (payloadOf p)) sc = map_option (apfst Inr) (query n d root p sc)"
  by (cases "role p")
     (auto simp: SelectorEngine_query_def query_def parse_def destructure_payloadOf
        truthy_value_string query_loop_value_typed truthy_value_def truthy_opt_def
        split: option.splits prod.splits)

lemma SelectorEngine_queryAll_typed:
  "SelectorEngine_queryAll n d root (Some (payloadOf p)) sc = map_option (apfst Inr) (queryAll n d root p sc)"
  by (cases "role p")
     (auto simp: SelectorEngine_queryAll_def queryAll_def parse_def destructure_payloadOf
        truthy_value_string queryAll_loop_value_typed truthy_value_def truthy_opt_def
        split: option.splits prod.splits)

section \<open>Properties\<close>

text \<open>
  Claim C1. Let the element \<open>e\<close> be hidden by itself or by an ancestor \<open>a\<close> (the
  \<^verbatim>\<open>hidden\<close> attribute, \<^verbatim>\<open>aria-hidden="true"\<close>, a computed display \<^verbatim>\<open>none\<close>, a
  computed visibility \<^verbatim>\<open>hidden\<close>, or the inert flag). Then \<^verbatim>\<open>isElementHidden\<close>
  returns true for \<open>e\<close>, once the fuel covers the \<open>k\<close> steps up to \<open>a\<close>; neither
  \<^verbatim>\<open>queryAll\<close> nor \<^verbatim>\<open>query\<close> returns \<open>e\<close> or an element \<open>x\<close> below \<open>e\<close>, from any
  root and for any payload; and the traversal that reaches \<open>e\<close> yields nothing and marks
  no node other than \<open>e\<close> as visited: the subtree is not entered.
\<close>

theorem hidden_subtree_pruned:
  assumes "cache_ok sc" and "nodeKind (nodes d e) = ElementNode"
    and "ancestorAt d k e = Some a" and "hiddenCause d a"
  shows "(k < n \<longrightarrow> (\<exists>sc'. isElementHidden n d e sc = Some (True, sc')))
       \<and> (\<forall>j x res sc'. ancestorAt d j x = Some e \<longrightarrow> queryAll n d root p sc = Some (res, sc') \<longrightarrow> x \<notin> set res)
       \<and> (\<forall>j x sc'. ancestorAt d j x = Some e \<longrightarrow> query n d root p sc \<noteq> Some (Some x, sc'))
       \<and> (k < n \<longrightarrow> e \<notin> v \<longrightarrow> (\<exists>sc'. getElements n d e (v, sc) = Some ([], insert e v, sc')))"
proof (intro conjI allI impI)
  assume "k < n"
  from hidden_found [OF assms(1,3,4) this]
  show "\<exists>sc'. isElementHidden n d e sc = Some (True, sc')" by (simp add: isElementHidden_def)
next
  fix j x res sc'
  assume j: "ancestorAt d j x = Some e" and q: "queryAll n d root p sc = Some (res, sc')"
  show "x \<notin> set res"
  proof
    assume "x \<in> set res"
    from queryAll_visible [OF assms(1) q this] ancestorAt_add [OF j assms(3)] assms(4)
    show False by (auto simp: visible_def)
  qed
next
  fix j x sc'
  assume j: "ancestorAt d j x = Some e"
  show "query n d root p sc \<noteq> Some (Some x, sc')"
  proof
    assume "query n d root p sc = Some (Some x, sc')"
    from query_visible [OF assms(1) this] ancestorAt_add [OF j assms(3)] assms(4)
    show False by (auto simp: visible_def)
  qed
next
  assume kn: "k < n" and ev: "e \<notin> v"
  then obtain n' where n: "n = Suc n'" by (cases n) auto
  from hidden_found [OF assms(1,3,4) kn] obtain s' where "isElementHidden n d e sc = Some (True, s')"
    by (auto simp: isElementHidden_def)
  with ev assms(2) show "\<exists>sc'. getElements n d e (v, sc) = Some ([], insert e v, sc')"
    by (simp add: n Let_def instanceofElement_def)
qed

theorem hidden_subtree_pruned_witness:
  "cache_ok Map.empty \<and> nodeKind (nodes hiddenDoc 2) = ElementNode
   \<and> ancestorAt hiddenDoc 1 2 = Some 1 \<and> hiddenCause hiddenDoc 1
   \<and> map_option fst (isElementHidden 5 hiddenDoc 2 Map.empty) = Some True
   \<and> map_option fst (queryAll 5 hiddenDoc 0 \<lparr>role = Some ''button'', name = None, description = None, exact = None\<rparr> Map.empty)
       = Some [4]
   \<and> map_option fst (query 5 hiddenDoc 0 \<lparr>role = Some ''button'', name = None, description = None, exact = None\<rparr> Map.empty)
       = Some (Some 4)
   \<and> map_option (\<lambda>r. (fst r, fst (snd r))) (getElements 5 hiddenDoc 2 ({}, Map.empty)) = Some ([], {2})"
proof -
  have a: "cache_ok Map.empty" by simp
  have b: "nodeKind (nodes hiddenDoc 2) = ElementNode" by code_simp
  have c: "ancestorAt hiddenDoc 1 2 = Some 1" by code_simp
  have d: "hiddenCause hiddenDoc 1" by code_simp
  have e: "map_option fst (queryAll 5 hiddenDoc 0 \<lparr>role = Some ''button'', name = None, description = None, exact = None\<rparr> Map.empty)
       = Some [4]" by code_simp
  have f: "map_option fst (query 5 hiddenDoc 0 \<lparr>role = Some ''button'', name = None, description = None, exact = None\<rparr> Map.empty)
       = Some (Some 4)" by code_simp
  from hidden_subtree_pruned [OF a b c d, of 5 0 "\<lparr>role = Some ''button'', name = None, description = None, exact = None\<rparr>" "{}"]
  have "\<exists>sc'. isElementHidden 5 hiddenDoc 2 Map.empty = Some (True, sc')"
    and "\<exists>sc'. getElements 5 hiddenDoc 2 ({}, Map.empty) = Some ([], {2}, sc')"
    by auto
  with a b c d e f show ?thesis by auto
qed

text \<open>
  Claim C2. For every element whose \<^verbatim>\<open>role\<close> attribute is present and not empty,
  \<^verbatim>\<open>computeElementRole\<close> returns the value of the attribute as it is written, whatever
  the tag of the element, the role its tag maps to and the role recorded in its internals.
\<close>

theorem computeElementRole_explicit:
  assumes "getAttribute d el ''role'' = Some r" and "r \<noteq> []"
  shows "computeElementRole (Suc n) d el sc = Some (Some r, sc)"
  using assms by (simp add: truthy_opt_def truthy_def)

theorem computeElementRole_explicit_witness:
  "getAttribute labelDoc 1 ''role'' = Some ''tab'' \<and> ''tab'' \<noteq> [] \<and>
   computeElementRole (Suc 0) labelDoc 1 Map.empty = Some (Some ''tab'', Map.empty)"
proof -
  have a: "getAttribute labelDoc 1 ''role'' = Some ''tab''"
    by (simp add: getAttribute_def labelDoc_def mkDom_def htmlElement_def blankNode_def)
  have b: "''tab'' \<noteq> []" by simp
  from computeElementRole_explicit [OF a b, of 0 Map.empty] a b show ?thesis by simp
qed

text \<open>
  Claim C3, as stated. The claim has the traversal and the text of an element with a
  shadow root never visit or include the light children of the element. In \<open>slotDoc\<close>
  the light child of the host (1) is the button (2), assigned to the slot of the shadow
  root: the traversal from the host yields the button, the text of the host is the text
  of the button, and \<^verbatim>\<open>queryAll\<close> returns the button.
\<close>

theorem slotted_light_child_included:
  "shadowdomMap slotDoc 1 = Some 3 \<and> childNodes (nodes slotDoc 1) = [2]
   \<and> map_option fst (getElements 8 slotDoc 1 ({}, Map.empty)) = Some [1, 4, 2]
   \<and> map_option fst (asText 8 slotDoc 1 Map.empty) = Some ''Go''
   \<and> map_option fst (queryAll 8 slotDoc 0 \<lparr>role = Some ''button'', name = None, description = None, exact = None\<rparr>
        Map.empty) = Some [2]"
  by code_simp

text \<open>
  Claim C3, amended. For an element with a recorded shadow root, the traversal, the text
  extraction, the name computation and both queries never read the child list of the
  element: their results do not change when that list is replaced by any other. A
  visible host that has not been visited and is not a slot with assigned elements
  yields itself and then what the traversal of its shadow root yields, and the text of a
  visible host (other than an image, an input or a slot with assigned nodes) is the
  normalized text of the children of its shadow root. A light child is visited or
  included only where the content of the shadow root leads to it, as a slot does for the
  nodes assigned to it.
\<close>

theorem shadow_root_replaces_children:
  assumes "shadowHost d host" and "shadowdomMap d host = Some shadowRoot"
  shows "getElements n (withChildNodes d host cs) x st = getElements n d x st
       \<and> asText n (withChildNodes d host cs) x sc = asText n d x sc
       \<and> computeAccessibleName n (withChildNodes d host cs) x opts sc = computeAccessibleName n d x opts sc
       \<and> query n (withChildNodes d host cs) root p sc = query n d root p sc
       \<and> queryAll n (withChildNodes d host cs) root p sc = queryAll n d root p sc
       \<and> (host \<notin> v \<and> isElementHidden (Suc n) d host sc = Some (False, sc1)
            \<and> (case slot (nodes d host) of Some s \<Rightarrow> assignedElements s = [] | None \<Rightarrow> True)
          \<longrightarrow> getElements (Suc n) d host (v, sc) = yieldFirst host (getElements n d shadowRoot (insert host v, sc1)))
       \<and> (isElementHidden (Suc n) d host sc = Some (False, sc1)
            \<and> tagName (nodes d host) \<noteq> ''IMG'' \<and> tagName (nodes d host) \<noteq> ''INPUT''
            \<and> (case slot (nodes d host) of Some s \<Rightarrow> assignedNodes s = [] | None \<Rightarrow> True)
          \<longrightarrow> asText (Suc n) d host sc = normalized (mapM (asText n d) (childNodes (nodes d shadowRoot)) sc1))"
proof -
  have el: "nodeKind (nodes d host) = ElementNode" using assms(1) by (simp add: shadowHost_def)
  have "getElements (Suc n) d host (v, sc) = yieldFirst host (getElements n d shadowRoot (insert host v, sc1))"
    if "host \<notin> v" and "isElementHidden (Suc n) d host sc = Some (False, sc1)"
      and "case slot (nodes d host) of Some s \<Rightarrow> assignedElements s = [] | None \<Rightarrow> True"
    using that el assms(2) unfolding getElements.simps
    by (auto simp: Let_def instanceofElement_def split: option.splits)
  moreover have "asText (Suc n) d host sc = normalized (mapM (asText n d) (childNodes (nodes d shadowRoot)) sc1)"
    if "isElementHidden (Suc n) d host sc = Some (False, sc1)"
      and "tagName (nodes d host) \<noteq> ''IMG''" and "tagName (nodes d host) \<noteq> ''INPUT''"
      and "case slot (nodes d host) of Some s \<Rightarrow> assignedNodes s = [] | None \<Rightarrow> True"
    using that el assms(2) unfolding asText.simps
    by (auto simp: isElement_def split: option.splits)
  ultimately show ?thesis
    by (simp add: getElements_withChildNodes [OF assms(1)] asText_withChildNodes [OF assms(1)]
          role_name_withChildNodes [OF assms(1)] query_withChildNodes [OF assms(1)])
qed

theorem shadow_root_replaces_children_witness:
  "shadowHost slotDoc 1 \<and> shadowdomMap slotDoc 1 = Some 3
   \<and> map_option fst (getElements 8 (withChildNodes slotDoc 1 [5]) 0 ({}, Map.empty)) = Some [1, 4, 2]
   \<and> map_option fst (asText 8 (withChildNodes slotDoc 1 [5]) 1 Map.empty) = Some ''Go''"
proof -
  have a: "shadowHost slotDoc 1"
    by (simp add: shadowHost_def slotDoc_def mkDom_def htmlElement_def blankNode_def ran_def)
  have b: "shadowdomMap slotDoc 1 = Some 3" by (simp add: slotDoc_def)
  have c: "map_option fst (getElements 8 slotDoc 0 ({}, Map.empty)) = Some [1, 4, 2]" by code_simp
  have e: "map_option fst (asText 8 slotDoc 1 Map.empty) = Some ''Go''" by code_simp
  from shadow_root_replaces_children [OF a b, of 8 "[5]" 0 "({}, Map.empty)"] c
  have 1: "map_option fst (getElements 8 (withChildNodes slotDoc 1 [5]) 0 ({}, Map.empty)) = Some [1, 4, 2]"
    by simp
  from shadow_root_replaces_children [OF a b, of 8 "[5]" 1 _ Map.empty] e
  have 2: "map_option fst (asText 8 (withChildNodes slotDoc 1 [5]) 1 Map.empty) = Some ''Go''"
    by simp
  from a b 1 2 show ?thesis by simp
qed

text \<open>
  Claim C4. On a tree-shaped document whose cross references stay inside a finite set
  \<open>U\<close> of elements, \<^verbatim>\<open>computeAccessibleName\<close> returns for every element of \<open>U\<close> and
  every option record, whatever the cross references are (two elements may name each
  other): with any fuel from \<open>2 * H + 2 * card U + 4\<close> on it finishes, always with the
  same name, cache and visited set. An element met again while its own name is being
  computed (it is in the visited set and not yet in the cache) resolves to the empty
  string at once, and leaves the cache and the visited set as they are.
\<close>

theorem computeAccessibleName_terminates:
  assumes "treeShaped d depth H" and "finite U" and "\<forall>x \<in> U. set (labelledByElements d x) \<subseteq> U"
    and "el \<in> U" and "cache_ok sc"
  shows "(\<exists>t c v. \<forall>n \<ge> 2 * H + 2 * card U + 4. \<exists>sc'. computeAccessibleName n d el opts sc = Some ((t, c, v), sc'))
       \<and> (\<forall>n c v. c el = None \<longrightarrow> el \<in> v
            \<longrightarrow> computeAccessibleName (Suc n) d el (opts\<lparr>cache := Some c, visited := Some v\<rparr>) sc
                = Some (([], c, v), sc))"
proof (intro conjI allI impI)
  let ?N = "2 * H + 2 * card U + 4"
  have "card (U - visitedOf opts) \<le> card U"
    using assms(2) by (intro card_mono) auto
  then have "2 * H + 2 + card (U - visitedOf opts) + (if knownRole opts = None then card U + 2 else 0) \<le> ?N"
    by simp
  with role_name_total [of d depth H U ?N] assms(1-4) obtain t c v s' where
    N: "computeAccessibleName ?N d el opts sc = Some ((t, c, v), s')"
    by blast
  have "\<exists>sc'. computeAccessibleName n d el opts sc = Some ((t, c, v), sc')" if "?N \<le> n" for n
    using computeAccessibleName_le [OF that, of sc sc d el opts] N assms(5)
    by (auto simp: both_ok_def)
  then show "\<exists>t c v. \<forall>n \<ge> ?N. \<exists>sc'. computeAccessibleName n d el opts sc = Some ((t, c, v), sc')"
    by blast
next
  fix n and c :: "ref \<rightharpoonup> string" and v
  assume "c el = None" and "el \<in> v"
  then show "computeAccessibleName (Suc n) d el (opts\<lparr>cache := Some c, visited := Some v\<rparr>) sc = Some (([], c, v), sc)"
    by simp
qed

theorem computeAccessibleName_terminates_witness:
  "treeShaped cycleDoc cycleDepth 2 \<and> finite {1, 2 :: nat} \<and> (1 :: nat) \<in> {1, 2} \<and> cache_ok Map.empty
   \<and> labelledByElements cycleDoc 1 = [2] \<and> labelledByElements cycleDoc 2 = [1]
   \<and> map_option (fst \<circ> fst) (computeAccessibleName 12 cycleDoc 1 noOpts Map.empty) = Some ''Beta''
   \<and> map_option (fst \<circ> fst) (computeAccessibleName 1000 cycleDoc 1 noOpts Map.empty) = Some ''Beta''"
proof -
  have a: "treeShaped cycleDoc cycleDepth 2"
    by (auto simp: treeShaped_def content_def cycleDoc_def cycleDepth_def mkDom_def htmlElement_def
          textNode_def documentNode_def blankNode_def)
  have b: "finite {1, 2 :: nat}" by simp
  have c: "\<forall>x \<in> {1, 2}. set (labelledByElements cycleDoc x) \<subseteq> {1, 2}" by (auto simp: cycleDoc_refs)
  have e: "(1 :: nat) \<in> {1, 2}" by simp
  have f: "cache_ok Map.empty" by simp
  have g: "map_option (fst \<circ> fst) (computeAccessibleName 12 cycleDoc 1 noOpts Map.empty) = Some ''Beta''"
    by code_simp
  from computeAccessibleName_terminates [OF a b c e f, of noOpts] obtain t c' v where
    all: "\<forall>n \<ge> 2 * 2 + 2 * card {1, 2 :: nat} + 4. \<exists>sc'. computeAccessibleName n cycleDoc 1 noOpts Map.empty = Some ((t, c', v), sc')"
    by blast
  have "\<exists>sc'. computeAccessibleName 12 cycleDoc 1 noOpts Map.empty = Some ((t, c', v), sc')"
    using all by simp
  with g have t: "t = ''Beta''" by auto
  have "\<exists>sc'. computeAccessibleName 1000 cycleDoc 1 noOpts Map.empty = Some ((t, c', v), sc')"
    using all by simp
  with t have h: "map_option (fst \<circ> fst) (computeAccessibleName 1000 cycleDoc 1 noOpts Map.empty) = Some ''Beta''"
    by auto
  from a b e f g h show ?thesis by (simp add: cycleDoc_refs)
qed

text \<open>
  Claim C5. When the cross references give no text, the claim has the label of the
  internals win over the \<^verbatim>\<open>aria-label\<close> attribute. The source reads the attribute
  first: on the element of \<open>labelDoc\<close>, which has both, the name is the attribute's
  \<^verbatim>\<open>Attr\<close>, not the internals' \<^verbatim>\<open>Internal\<close>.
\<close>

theorem aria_label_attribute_first:
  "labelledByElements labelDoc 1 = []
   \<and> getAttribute labelDoc 1 ''aria-label'' = Some ''Attr''
   \<and> Option.bind (internalsMap labelDoc 1) ariaLabel = Some ''Internal''
   \<and> map_option (fst \<circ> fst) (computeAccessibleName 1 labelDoc 1 noOpts Map.empty) = Some ''Attr''
   \<and> map_option (fst \<circ> fst) (computeAccessibleName 9 labelDoc 1 noOpts Map.empty) = Some ''Attr''"
  by code_simp

text \<open>
  Claim C6, as stated. The claim has an element with an empty accessible name fail every
  name filter, the empty one included. An empty \<^verbatim>\<open>name\<close> is falsy, so the guard
  \<^verbatim>\<open>name && ...\<close> of the query loops skips the filter: the button of \<open>buttonDoc\<close> has
  the empty name and is returned for the payload with \<^verbatim>\<open>name: ""\<close>.
\<close>

theorem empty_name_filter_matches:
  "accessibleNameForFilter 5 buttonDoc 1 = Some []
   \<and> map_option fst (queryAll 5 buttonDoc 0
        \<lparr>role = Some ''button'', name = Some [], description = None, exact = None\<rparr> Map.empty) = Some [1]
   \<and> map_option fst (query 5 buttonDoc 0
        \<lparr>role = Some ''button'', name = Some [], description = None, exact = None\<rparr> Map.empty) = Some (Some 1)"
  by code_simp

text \<open>
  Claim C6, amended. An element whose accessible name is empty is never returned for a
  payload whose name is not empty, even when its role is the requested one, and
  \<^verbatim>\<open>matchesNameFilter\<close> is true of it for no filter at all; a payload whose name is
  empty applies no name filter.
\<close>

theorem empty_name_never_matches:
  assumes "cache_ok sc" and "truthy_opt (name p)" and "accessibleNameForFilter m d e = Some []"
  shows "(\<forall>res sc'. queryAll n d root p sc = Some (res, sc') \<longrightarrow> e \<notin> set res)
       \<and> (\<forall>sc'. query n d root p sc \<noteq> Some (Some e, sc'))
       \<and> (\<forall>nm ex sc1 sc2. cache_ok sc1 \<longrightarrow> matchesNameFilter n d e nm ex sc1 \<noteq> Some (True, sc2))"
proof (intro conjI allI impI notI)
  fix nm ex sc1 sc2 assume "cache_ok sc1" and "matchesNameFilter n d e nm ex sc1 = Some (True, sc2)"
  with empty_name_no_match [OF assms(3)] show False by blast
next
  fix res sc' assume q: "queryAll n d root p sc = Some (res, sc')" and e: "e \<in> set res"
  from q e obtain xs v s1 where g: "getElements n d root ({}, sc) = Some (xs, v, s1)"
    and l: "queryAll_loop n d (the (role p)) (name p) (exact p) xs s1 = Some (res, sc')"
    unfolding queryAll_def by (auto split: if_splits option.splits)
  have "cache_ok s1" using assms(1) g by (rule getElements_ok)
  from queryAll_loop_filtered [OF l this e assms(2)] empty_name_no_match [OF assms(3)]
  show False by blast
next
  fix sc' assume q: "query n d root p sc = Some (Some e, sc')"
  from q obtain xs v s1 where g: "getElements n d root ({}, sc) = Some (xs, v, s1)"
    and l: "query_loop n d (the (role p)) (name p) (exact p) xs s1 = Some (Some e, sc')"
    unfolding query_def by (auto split: if_splits option.splits)
  have "cache_ok s1" using assms(1) g by (rule getElements_ok)
  from query_loop_filtered [OF l this assms(2)] empty_name_no_match [OF assms(3)]
  show False by blast
qed

theorem empty_name_never_matches_witness:
  "cache_ok Map.empty
   \<and> truthy_opt (name \<lparr>role = Some ''button'', name = Some ''x'', description = None, exact = None\<rparr>)
   \<and> accessibleNameForFilter 5 buttonDoc 1 = Some []
   \<and> queryAll 5 buttonDoc 0 \<lparr>role = Some ''button'', name = Some ''x'', description = None, exact = None\<rparr> Map.empty
       \<noteq> None
   \<and> 1 \<notin> set (fst (the (queryAll 5 buttonDoc 0
        \<lparr>role = Some ''button'', name = Some ''x'', description = None, exact = None\<rparr> Map.empty)))"
proof -
  let ?p = "\<lparr>role = Some ''button'', name = Some ''x'', description = None, exact = None\<rparr>"
  have a: "cache_ok Map.empty" by simp
  have b: "truthy_opt (name ?p)" by (simp add: truthy_opt_def truthy_def)
  have c: "accessibleNameForFilter 5 buttonDoc 1 = Some []" by code_simp
  have d: "queryAll 5 buttonDoc 0 ?p Map.empty \<noteq> None" by code_simp
  from empty_name_never_matches [where n = 5 and root = 0, OF a b c] d a b c show ?thesis by auto
qed

text \<open>
  Claim C7, as stated. The claim has every top-level call start from fresh caches. The
  computed-style cache is a table of the engine's closure: the call of \<^verbatim>\<open>queryAll\<close>
  below starts from the empty cache and leaves an entry for element 1 in it, with which
  the next call on the engine starts.
\<close>

theorem style_cache_persists:
  "(case queryAll 5 labelDoc 0 \<lparr>role = Some ''tab'', name = None, description = None, exact = None\<rparr> Map.empty of
      None \<Rightarrow> None
    | Some (res, sc') \<Rightarrow> sc' 1) = Some (CSSStyleDeclaration 1)"
  by code_simp

text \<open>
  Claim C7, amended. The name cache and the visited sets are made anew by every name
  computation and every traversal (a name computation that is given no cache and no
  visited set, as every top-level one is, runs from the empty cache and the empty set);
  the only state that one call of \<^verbatim>\<open>query\<close> or \<^verbatim>\<open>queryAll\<close> hands to the next is
  the style cache. It is not emptied between calls, and it stays well formed; since it
  holds live declarations only, its content never changes a result: from any well-formed
  cache, both operations return what they return from the empty one.
\<close>

theorem style_cache_never_changes_results:
  assumes "cache_ok sc"
  shows "map_option fst (query n d root p sc) = map_option fst (query n d root p Map.empty)
    \<and> map_option fst (queryAll n d root p sc) = map_option fst (queryAll n d root p Map.empty)
    \<and> (\<forall>r sc'. query n d root p sc = Some (r, sc') \<longrightarrow> cache_ok sc')
    \<and> (\<forall>r sc'. queryAll n d root p sc = Some (r, sc') \<longrightarrow> cache_ok sc')
    \<and> computeAccessibleName n d el (opts\<lparr>cache := None, visited := None\<rparr>) sc
        = computeAccessibleName n d el (opts\<lparr>cache := Some Map.empty, visited := Some {}\<rparr>) sc"
proof -
  have a: "both_ok sc Map.empty" and b: "both_ok Map.empty sc"
    using assms by (simp_all add: both_ok_def)
  have "map_option fst (query n d root p sc) = map_option fst (query n d root p Map.empty)"
    by (rule le_res_both_fst [OF query_le [OF le_refl a] query_le [OF le_refl b]])
  moreover have "map_option fst (queryAll n d root p sc) = map_option fst (queryAll n d root p Map.empty)"
    by (rule le_res_both_fst [OF queryAll_le [OF le_refl a] queryAll_le [OF le_refl b]])
  moreover have "computeAccessibleName n d el (opts\<lparr>cache := None, visited := None\<rparr>) sc
        = computeAccessibleName n d el (opts\<lparr>cache := Some Map.empty, visited := Some {}\<rparr>) sc"
    by (rule fresh_name_state)
  ultimately show ?thesis
    using assms by (auto dest: query_ok queryAll_ok)
qed

theorem style_cache_never_changes_results_witness:
  "cache_ok [1 \<mapsto> CSSStyleDeclaration 1]
   \<and> map_option fst (queryAll 5 labelDoc 0 \<lparr>role = Some ''tab'', name = None, description = None, exact = None\<rparr>
        [1 \<mapsto> CSSStyleDeclaration 1]) = Some [1]"
proof -
  have ok: "cache_ok [1 \<mapsto> CSSStyleDeclaration 1]"
    by (simp add: cache_ok_def getComputedStyle_def)
  have "map_option fst (queryAll 5 labelDoc 0 \<lparr>role = Some ''tab'', name = None, description = None, exact = None\<rparr> Map.empty)
          = Some [1]"
    by code_simp
  with style_cache_never_changes_results [OF ok, of 5 labelDoc 0
         "\<lparr>role = Some ''tab'', name = None, description = None, exact = None\<rparr>"] ok
  show ?thesis by simp
qed

text \<open>
  Claim C8. Two payloads that differ only in their description give the same result of
  \<^verbatim>\<open>query\<close> and the same result of \<^verbatim>\<open>queryAll\<close>, on every root.
\<close>

theorem description_ignored:
  "query n d root (selector\<lparr>description := x\<rparr>) sc = query n d root (selector\<lparr>description := y\<rparr>) sc
   \<and> queryAll n d root (selector\<lparr>description := x\<rparr>) sc = queryAll n d root (selector\<lparr>description := y\<rparr>) sc"
  by (simp add: query_def queryAll_def cong: option.case_cong prod.case_cong)

text \<open>
  Claim C9, as stated: for every selector whose text is JSON and whose payload has no
  role or an empty one, \<^verbatim>\<open>query\<close> returns \<^verbatim>\<open>null\<close>, \<^verbatim>\<open>queryAll\<close> returns the empty
  array, and neither throws. The text \<^verbatim>\<open>null\<close> is JSON and its value has no role, but
  both methods throw a \<^verbatim>\<open>TypeError\<close> on it: the destructuring of \<^verbatim>\<open>null\<close> comes
  before the test of the role.
\<close>

theorem null_payload_throws:
  "parse (Some JNull) = Inr JNull
   \<and> property JNull ''role'' = None
   \<and> SelectorEngine_query 5 labelDoc 0 (Some JNull) Map.empty = Some (Inl TypeError, Map.empty)
   \<and> SelectorEngine_queryAll 5 labelDoc 0 (Some JNull) Map.empty = Some (Inl TypeError, Map.empty)"
  by (simp add: SelectorEngine_query_def SelectorEngine_queryAll_def parse_def destructure_def)

text \<open>
  Claim C9, amended. For every selector whose text is JSON for a value other than
  \<^verbatim>\<open>null\<close>, whether an object or not and whatever its other members are, if the value
  has no role or its role is the empty string, then \<^verbatim>\<open>query\<close> returns \<^verbatim>\<open>null\<close> and
  \<^verbatim>\<open>queryAll\<close> returns the empty array, on every root and with any fuel: neither
  throws, and both return before the traversal starts, with the style cache unchanged.
\<close>

theorem query_without_role:
  assumes "payload \<noteq> JNull"
    and "property payload ''role'' = None \<or> property payload ''role'' = Some (JString [])"
  shows "SelectorEngine_query n d root (Some payload) sc = Some (Inr None, sc)
         \<and> SelectorEngine_queryAll n d root (Some payload) sc = Some (Inr [], sc)"
  using assms
  by (cases payload)
     (auto simp: SelectorEngine_query_def SelectorEngine_queryAll_def parse_def destructure_def
        truthy_value_def truthy_def)

theorem query_without_role_witness:
  "SelectorEngine_query 0 labelDoc 0 (Some (JObject [(''name'', JString ''x'')])) Map.empty
     = Some (Inr None, Map.empty)
   \<and> SelectorEngine_queryAll 0 labelDoc 0 (Some (JObject [(''name'', JString ''x'')])) Map.empty
     = Some (Inr [], Map.empty)"
  using query_without_role [of "JObject [(''name'', JString ''x'')]" 0 labelDoc 0 Map.empty]
  by simp

text \<open>
  Claim C10. \<^verbatim>\<open>getByComputedRole\<close> leaves falsy options out of the payload: an empty
  name, an empty description and \<^verbatim>\<open>exact: false\<close> give the selector that the same
  call gives without that option, whatever the other options are; options that are all
  absent give the selector of the call without options, and so does each of
  \<^verbatim>\<open>{ name: "" }\<close>, \<^verbatim>\<open>{ description: "" }\<close> and \<^verbatim>\<open>{ exact: false }\<close>.
\<close>

theorem getByComputedRole_falsy_omitted:
  "getByComputedRole r (Some (options\<lparr>opt_name := Some []\<rparr>))
     = getByComputedRole r (Some (options\<lparr>opt_name := None\<rparr>))
   \<and> getByComputedRole r (Some (options\<lparr>opt_description := Some []\<rparr>))
     = getByComputedRole r (Some (options\<lparr>opt_description := None\<rparr>))
   \<and> getByComputedRole r (Some (options\<lparr>opt_exact := Some False\<rparr>))
     = getByComputedRole r (Some (options\<lparr>opt_exact := None\<rparr>))
   \<and> getByComputedRole r (Some \<lparr>opt_name = None, opt_description = None, opt_exact = None\<rparr>)
     = getByComputedRole r None
   \<and> getByComputedRole r (Some \<lparr>opt_name = Some [], opt_description = None, opt_exact = None\<rparr>)
     = getByComputedRole r None
   \<and> getByComputedRole r (Some \<lparr>opt_name = None, opt_description = Some [], opt_exact = None\<rparr>)
     = getByComputedRole r None
   \<and> getByComputedRole r (Some \<lparr>opt_name = None, opt_description = None, opt_exact = Some False\<rparr>)
     = getByComputedRole r None"
  by (simp add: getByComputedRole_def truthy_opt_def truthy_def)

end
